theory Spec2Isabelle
  imports Complex_Main
begin

unbundle bit_operations_syntax

section \<open>Memory, pointers and faults\<close>

text \<open>
  Pointers are addresses; the null pointer is \<open>None\<close> of \<open>addr option\<close>. Objects live in
  explicit stores (maps from addresses to values), so that a destructed object is really
  gone and two pointers can alias. An assertion of the source that fails, a read through a
  pointer to a destructed object and an access outside an array are faults: the left
  summand of every result that can hit one.
\<close>

type_synonym addr = nat

text \<open>
  A \<open>std::size_t\<close> has 64 bits. Sizes are naturals; where the source adds two of them the
  sum is taken modulo \<open>2^64\<close>, as the unsigned addition of the source is.
\<close>

definition size_t :: "nat \<Rightarrow> nat" where
  "size_t n = n mod 2 ^ 64"

datatype fault =
    Dangling_pointer
  | Out_of_bounds
  | Pool_exhausted
  | Data_to_erase_not_found
  | Still_referenced
  | Counter_overflow
  | Counter_underflow
  | Null_pointer
  | Unset_handler
  | Reset_handler
  | Bad_size
  | Allocator_reused_live_block

section \<open>coredd/hash.hh and coredd/detail/next_power.hh\<close>

text \<open>
  Modelled from the spec: \<open>coredd/hash.hh\<close> is not among the sources. By P7 and the
  design note on hash mixing, \<open>seed(x)\<close> starts a hash value from the standard hash of
  \<open>x\<close> and, with nothing mixed in, converts to that hash unchanged. The standard hash of
  the argument's type is the parameter \<open>h\<close>.
\<close>

definition seed :: "('a \<Rightarrow> nat) \<Rightarrow> 'a \<Rightarrow> nat" where
  "seed h x = h x"

text \<open>
  Modelled from the spec: \<open>coredd/detail/next_power.hh\<close> is not among the sources. The
  bucket array is sized to the next power of two greater than or equal to the requested
  capacity.
\<close>

fun next_power_of_2 :: "nat \<Rightarrow> nat" where
  "next_power_of_2 n = (if n \<le> 1 then 1 else 2 * next_power_of_2 ((n + 1) div 2))"

declare next_power_of_2.simps [simp del]

section \<open>coredd/detail/hash\_table.hh\<close>

text \<open>
  The intrusive chain of a bucket (the \<open>hook().next\<close> pointers from the bucket's head to
  \<open>nullptr\<close>) is the list of the chained addresses, head first. \<open>Data\<close> is the type
  \<open>'d\<close>; \<open>deref\<close> reads the object behind a pointer, \<open>hashD\<close> is \<open>std::hash<Data>\<close> and
  \<open>eqD\<close> is \<open>operator==\<close> on \<open>Data\<close>. Sizes and hashes are \<open>std::size_t\<close> values, read
  as naturals; the load factor is a \<open>double\<close>, read as the real number it stands for.
\<close>

record hash_table =
  m_nb_buckets :: nat
  m_size :: nat
  m_buckets :: "addr list list"
  m_max_load_factor :: real
  m_nb_rehash :: nat

definition hash_table :: "nat \<Rightarrow> real \<Rightarrow> hash_table" where
  "hash_table sz max_load_factor =
     \<lparr> m_nb_buckets = next_power_of_2 sz,
       m_size = 0,
       m_buckets = replicate (next_power_of_2 sz) [],
       m_max_load_factor = max_load_factor,
       m_nb_rehash = 0 \<rparr>"

text \<open>The scan of a chain for the first element that \<open>eq\<close> accepts.\<close>

fun chain_find :: "(addr \<Rightarrow> 'd option) \<Rightarrow> ('d \<Rightarrow> bool) \<Rightarrow> addr list \<Rightarrow> fault + addr option" where
  "chain_find deref eq [] = Inr None"
| "chain_find deref eq (current # rest) =
     (case deref current of
        None \<Rightarrow> Inl Dangling_pointer
      | Some d \<Rightarrow> if eq d then Inr (Some current) else chain_find deref eq rest)"

text \<open>
  \<open>insert_check(x, eq, commit_data)\<close>: \<open>hx\<close> is \<open>std::hash<T>()(x)\<close> and \<open>eq\<close> is
  \<open>eq(x, _)\<close>. The result is the pointer found (\<open>None\<close> when the second component of the
  source's pair is \<open>true\<close>) and the bucket that \<open>commit_data\<close> records.
\<close>

definition insert_check ::
  "nat \<Rightarrow> ('d \<Rightarrow> bool) \<Rightarrow> (addr \<Rightarrow> 'd option) \<Rightarrow> hash_table \<Rightarrow> fault + (addr option \<times> nat)" where
  "insert_check hx eq deref t =
     (let pos = hx AND (m_nb_buckets t - 1) in
      if pos < length (m_buckets t) then
        (case chain_find deref eq (m_buckets t ! pos) of
           Inl f \<Rightarrow> Inl f
         | Inr r \<Rightarrow> Inr (r, pos))
      else Inl Out_of_bounds)"

definition insert_commit :: "addr \<Rightarrow> nat \<Rightarrow> hash_table \<Rightarrow> hash_table" where
  "insert_commit x bucket t =
     t \<lparr> m_buckets := (m_buckets t) [bucket := m_buckets t ! bucket @ [x]],
         m_size := m_size t + 1 \<rparr>"

text \<open>\<open>insert_impl(x, buckets, nb_buckets)\<close>, with \<open>m_size\<close> passed and returned.\<close>

definition insert_impl ::
  "('d \<Rightarrow> nat) \<Rightarrow> ('d \<Rightarrow> 'd \<Rightarrow> bool) \<Rightarrow> (addr \<Rightarrow> 'd option) \<Rightarrow> addr \<Rightarrow>
     addr list list \<Rightarrow> nat \<Rightarrow> nat \<Rightarrow> fault + ((addr \<times> bool) \<times> addr list list \<times> nat)" where
  "insert_impl hashD eqD deref x buckets nb_buckets sz =
     (case deref x of
        None \<Rightarrow> Inl Dangling_pointer
      | Some d \<Rightarrow>
          (let pos = hashD d AND (nb_buckets - 1) in
           if pos < length buckets then
             (case chain_find deref (eqD d) (buckets ! pos) of
                Inl f \<Rightarrow> Inl f
              | Inr (Some current) \<Rightarrow> Inr ((current, False), buckets, sz)
              | Inr None \<Rightarrow> Inr ((x, True), buckets [pos := x # buckets ! pos], sz + 1))
           else Inl Out_of_bounds))"

definition load_factor :: "hash_table \<Rightarrow> real" where
  "load_factor t = real (m_size t) / real (m_nb_buckets t)"

text \<open>The two nested loops of \<open>rehash\<close>, over the elements in the order the loops meet them.\<close>

fun reinsert ::
  "('d \<Rightarrow> nat) \<Rightarrow> ('d \<Rightarrow> 'd \<Rightarrow> bool) \<Rightarrow> (addr \<Rightarrow> 'd option) \<Rightarrow> nat \<Rightarrow> addr list \<Rightarrow>
     addr list list \<times> nat \<Rightarrow> fault + (addr list list \<times> nat)" where
  "reinsert hashD eqD deref nb [] acc = Inr acc"
| "reinsert hashD eqD deref nb (data_ptr # rest) acc =
     (case insert_impl hashD eqD deref data_ptr (fst acc) nb (snd acc) of
        Inl f \<Rightarrow> Inl f
      | Inr (_, new_buckets, sz) \<Rightarrow> reinsert hashD eqD deref nb rest (new_buckets, sz))"

definition rehash ::
  "('d \<Rightarrow> nat) \<Rightarrow> ('d \<Rightarrow> 'd \<Rightarrow> bool) \<Rightarrow> (addr \<Rightarrow> 'd option) \<Rightarrow> hash_table \<Rightarrow> fault + hash_table" where
  "rehash hashD eqD deref t =
     (if load_factor t < m_max_load_factor t then Inr t
      else
        (let new_nb_buckets = m_nb_buckets t * 2 in
         case reinsert hashD eqD deref new_nb_buckets
                (concat (take (m_nb_buckets t) (m_buckets t)))
                (replicate new_nb_buckets [], 0) of
           Inl f \<Rightarrow> Inl f
         | Inr (new_buckets, sz) \<Rightarrow>
             Inr (t \<lparr> m_nb_rehash := m_nb_rehash t + 1,
                      m_size := sz,
                      m_buckets := new_buckets,
                      m_nb_buckets := new_nb_buckets \<rparr>)))"

definition insert_ht ::
  "('d \<Rightarrow> nat) \<Rightarrow> ('d \<Rightarrow> 'd \<Rightarrow> bool) \<Rightarrow> (addr \<Rightarrow> 'd option) \<Rightarrow> addr \<Rightarrow> hash_table \<Rightarrow>
     fault + ((addr \<times> bool) \<times> hash_table)" where
  "insert_ht hashD eqD deref x t =
     (case insert_impl hashD eqD deref x (m_buckets t) (m_nb_buckets t) (m_size t) of
        Inl f \<Rightarrow> Inl f
      | Inr (res, buckets, sz) \<Rightarrow>
          (case rehash hashD eqD deref (t \<lparr> m_buckets := buckets, m_size := sz \<rparr>) of
             Inl f \<Rightarrow> Inl f
           | Inr t' \<Rightarrow> Inr (res, t')))"

text \<open>The loop of \<open>erase\<close> over one chain: \<open>None\<close> when no element equals \<open>*x\<close>.\<close>

fun chain_erase :: "(addr \<Rightarrow> 'd option) \<Rightarrow> ('d \<Rightarrow> bool) \<Rightarrow> addr list \<Rightarrow> fault + addr list option" where
  "chain_erase deref eq [] = Inr None"
| "chain_erase deref eq (current # rest) =
     (case deref current of
        None \<Rightarrow> Inl Dangling_pointer
      | Some d \<Rightarrow>
          if eq d then Inr (Some rest)
          else (case chain_erase deref eq rest of
                  Inl f \<Rightarrow> Inl f
                | Inr None \<Rightarrow> Inr None
                | Inr (Some rest') \<Rightarrow> Inr (Some (current # rest'))))"

definition erase ::
  "('d \<Rightarrow> nat) \<Rightarrow> ('d \<Rightarrow> 'd \<Rightarrow> bool) \<Rightarrow> (addr \<Rightarrow> 'd option) \<Rightarrow> addr \<Rightarrow> hash_table \<Rightarrow> fault + hash_table" where
  "erase hashD eqD deref x t =
     (case deref x of
        None \<Rightarrow> Inl Dangling_pointer
      | Some d \<Rightarrow>
          (let pos = hashD d AND (m_nb_buckets t - 1) in
           if pos < length (m_buckets t) then
             (case chain_erase deref (eqD d) (m_buckets t ! pos) of
                Inl f \<Rightarrow> Inl f
              | Inr None \<Rightarrow> Inl Data_to_erase_not_found
              | Inr (Some chain) \<Rightarrow>
                  Inr (t \<lparr> m_buckets := (m_buckets t) [pos := chain], m_size := m_size t - 1 \<rparr>))
           else Inl Out_of_bounds))"

text \<open>
  \<open>clear_and_dispose(disposer)\<close>: the disposer runs on every chained element, bucket by
  bucket and head first, each after its \<open>next\<close> pointer has been read; \<open>'s\<close> is whatever
  the disposer changes.
\<close>

definition clear_and_dispose :: "(addr \<Rightarrow> 's \<Rightarrow> 's) \<Rightarrow> hash_table \<Rightarrow> 's \<Rightarrow> hash_table \<times> 's" where
  "clear_and_dispose disposer t s =
     (t \<lparr> m_buckets := (replicate (m_nb_buckets t) []) @ drop (m_nb_buckets t) (m_buckets t),
          m_size := 0 \<rparr>,
      fold disposer (concat (take (m_nb_buckets t) (m_buckets t))) s)"

section \<open>coredd/detail/unique.hh\<close>

text \<open>
  The payload \<open>T\<close> is the type \<open>'a\<close>, compared by its own \<open>operator==\<close>, the equality
  of \<open>'a\<close>; \<open>m_hook\<close> is the place of the object in its chain. The counter is a
  \<open>std::uint32_t\<close>, and its two assertions are faults.
\<close>

record 'a unique =
  m_ref_count :: nat
  m_data :: 'a

definition unique :: "'a \<Rightarrow> 'a unique" where
  "unique args = \<lparr> m_ref_count = 0, m_data = args \<rparr>"

definition is_not_referenced :: "'a unique \<Rightarrow> bool" where
  "is_not_referenced u \<longleftrightarrow> m_ref_count u = 0"

definition eq_unique :: "'a unique \<Rightarrow> 'a unique \<Rightarrow> bool" where
  "eq_unique lhs rhs \<longleftrightarrow> m_data lhs = m_data rhs"

definition increment_reference_counter :: "'a unique \<Rightarrow> fault + 'a unique" where
  "increment_reference_counter u =
     (if m_ref_count u < 2 ^ 32 - 1 then Inr (u \<lparr> m_ref_count := m_ref_count u + 1 \<rparr>)
      else Inl Counter_overflow)"

definition decrement_reference_counter :: "'a unique \<Rightarrow> fault + 'a unique" where
  "decrement_reference_counter u =
     (if m_ref_count u > 0 then Inr (u \<lparr> m_ref_count := m_ref_count u - 1 \<rparr>)
      else Inl Counter_underflow)"

definition hash_unique :: "('a \<Rightarrow> nat) \<Rightarrow> 'a unique \<Rightarrow> nat" where
  "hash_unique h x = h (m_data x)"

section \<open>coredd/detail/unique\_table.hh\<close>

record unique_table_statistics =
  access :: nat
  hits :: nat
  misses :: nat
  peak :: nat

text \<open>
  The table, with the memory its pointers lead to: \<open>objects\<close> holds the \<open>unique\<close>
  constructed at each address, \<open>blocks\<close> the size of each \<open>char\<close> array that
  \<open>new char[]\<close> returned and \<open>delete[]\<close> has not yet freed. The address that
  \<open>new char[]\<close> returns is the allocator's choice, the argument \<open>fresh\<close>; an allocator
  never returns a block that is still allocated. \<open>sizeof_Unique\<close> is \<open>sizeof(Unique)\<close>.
\<close>

record 'a unique_table =
  m_set :: hash_table
  m_stats :: unique_table_statistics
  m_cache :: "addr option"
  m_cache_size :: nat
  objects :: "addr \<Rightarrow> 'a unique option"
  blocks :: "addr \<Rightarrow> nat option"

definition unique_table :: "nat \<Rightarrow> 'a unique_table" where
  "unique_table initial_size =
     \<lparr> m_set = hash_table initial_size 0.75,
       m_stats = \<lparr> access = 0, hits = 0, misses = 0, peak = 0 \<rparr>,
       m_cache = None,
       m_cache_size = 0,
       objects = (\<lambda>_. None),
       blocks = (\<lambda>_. None) \<rparr>"

text \<open>\<open>operator()(ptr, extra_bytes)\<close>, "unify a data".\<close>

definition unify ::
  "('a \<Rightarrow> nat) \<Rightarrow> nat \<Rightarrow> addr \<Rightarrow> nat \<Rightarrow> 'a unique_table \<Rightarrow> fault + (addr \<times> 'a unique_table)" where
  "unify h sizeof_Unique ptr extra_bytes t =
     (let t1 = t \<lparr> m_stats := (m_stats t) \<lparr> access := access (m_stats t) + 1 \<rparr> \<rparr> in
      case insert_ht (hash_unique h) eq_unique (objects t1) ptr (m_set t1) of
        Inl f \<Rightarrow> Inl f
      | Inr ((first, second), tbl) \<Rightarrow>
          if \<not> second then
            (let t2 = t1 \<lparr> m_set := tbl,
                           m_stats := (m_stats t1) \<lparr> hits := hits (m_stats t1) + 1 \<rparr>,
                           objects := (objects t1) (ptr := None) \<rparr> in
             if size_t (sizeof_Unique + extra_bytes) > m_cache_size t2 then
               Inr (first,
                    t2 \<lparr> blocks := (case m_cache t2 of
                                       None \<Rightarrow> blocks t2
                                     | Some old \<Rightarrow> (blocks t2) (old := None)),
                         m_cache := Some ptr,
                         m_cache_size := size_t (sizeof_Unique + extra_bytes) \<rparr>)
             else
               Inr (first, t2 \<lparr> blocks := (blocks t2) (ptr := None) \<rparr>))
          else
            Inr (first,
                 t1 \<lparr> m_set := tbl,
                      m_stats := (m_stats t1) \<lparr> misses := misses (m_stats t1) + 1,
                                               peak := max (peak (m_stats t1)) (m_size tbl) \<rparr> \<rparr>))"

text \<open>\<open>new char[n]\<close>, returning the address \<open>fresh\<close>.\<close>

definition new_char_array :: "addr \<Rightarrow> nat \<Rightarrow> 'a unique_table \<Rightarrow> fault + (addr \<times> 'a unique_table)" where
  "new_char_array fresh n t =
     (if blocks t fresh \<noteq> None then Inl Allocator_reused_live_block
      else Inr (fresh, t \<lparr> blocks := (blocks t) (fresh \<mapsto> n) \<rparr>))"

text \<open>\<open>allocate(extra_bytes)\<close> of the table.\<close>

definition unique_table_allocate ::
  "nat \<Rightarrow> nat \<Rightarrow> addr \<Rightarrow> 'a unique_table \<Rightarrow> fault + (addr \<times> 'a unique_table)" where
  "unique_table_allocate sizeof_Unique extra_bytes fresh t =
     (case m_cache t of
        None \<Rightarrow> new_char_array fresh (size_t (sizeof_Unique + extra_bytes)) t
      | Some res \<Rightarrow>
          if m_cache_size t \<ge> size_t (sizeof_Unique + extra_bytes)
          then Inr (res, t \<lparr> m_cache := None, m_cache_size := 0 \<rparr>)
          else new_char_array fresh (size_t (sizeof_Unique + extra_bytes)) t)"

definition unique_table_erase :: "('a \<Rightarrow> nat) \<Rightarrow> addr \<Rightarrow> 'a unique_table \<Rightarrow> fault + 'a unique_table" where
  "unique_table_erase h x t =
     (case objects t x of
        None \<Rightarrow> Inl Dangling_pointer
      | Some u \<Rightarrow>
          if \<not> is_not_referenced u then Inl Still_referenced
          else
            (case erase (hash_unique h) eq_unique (objects t) x (m_set t) of
               Inl f \<Rightarrow> Inl f
             | Inr tbl \<Rightarrow>
                 Inr (t \<lparr> m_set := tbl,
                          objects := (objects t) (x := None),
                          blocks := (blocks t) (x := None) \<rparr>)))"

section \<open>coredd/detail/pool.hh\<close>

text \<open>
  The arena of \<open>size\<close> slots is the addresses \<open>0, \<dots>, size - 1\<close>; the pool is its free
  list, head first. The constructor writes \<open>m_free_list[size - 1]\<close>, which is outside the
  arena when \<open>size\<close> is \<open>0\<close>.
\<close>

definition pool :: "nat \<Rightarrow> fault + addr list" where
  "pool sz = (if sz = 0 then Inl Out_of_bounds else Inr [0 ..< sz])"

definition allocate :: "addr list \<Rightarrow> fault + (addr \<times> addr list)" where
  "allocate m_free_list =
     (case m_free_list of
        [] \<Rightarrow> Inl Pool_exhausted
      | p # next \<Rightarrow> Inr (p, next))"

definition deallocate :: "addr \<Rightarrow> addr list \<Rightarrow> addr list" where
  "deallocate p m_free_list = p # m_free_list"

section \<open>coredd/detail/apply\_filters.hh\<close>

text \<open>
  A filter is a default-constructed functor applied to the operation; it returns its
  verdict or throws (\<open>Inl\<close>). \<open>Filter()(op) and apply_filters<T, Filters...>()(op)\<close>
  evaluates the rest only after \<open>true\<close>.
\<close>

fun apply_filters :: "('op \<Rightarrow> 'e + bool) list \<Rightarrow> 'op \<Rightarrow> 'e + bool" where
  "apply_filters [] op = Inr True"
| "apply_filters (Filter # Filters) op =
     (case Filter op of
        Inl e \<Rightarrow> Inl e
      | Inr False \<Rightarrow> Inr False
      | Inr True \<Rightarrow> apply_filters Filters op)"

section \<open>coredd/detail/cache\_entry.hh and the LRU list\<close>

text \<open>
  Modelled from the spec: \<open>coredd/detail/lru_list.hh\<close> is not among the sources. By
  section 4.3 the LRU list is a doubly linked list of pointers to cache entries, a
  \<open>std::list\<close> as \<open>cache.hh\<close> uses it. A node of the list is the pair of its identity and
  the pointer it holds; an iterator is the identity of the node it points to. The list
  allocator hands out an identity that no node of the list has.
\<close>

type_synonym lru_list = "(nat \<times> addr) list"

record ('op, 'r) cache_entry =
  m_operation :: 'op
  m_result :: 'r
  m_lru_cit :: nat

definition eq_cache_entry :: "('op, 'r) cache_entry \<Rightarrow> ('op, 'r) cache_entry \<Rightarrow> bool" where
  "eq_cache_entry lhs rhs \<longleftrightarrow> m_operation lhs = m_operation rhs"

definition hash_cache_entry :: "('op \<Rightarrow> nat) \<Rightarrow> ('op, 'r) cache_entry \<Rightarrow> nat" where
  "hash_cache_entry h x = seed h (m_operation x)"

definition fresh_node :: "lru_list \<Rightarrow> nat" where
  "fresh_node l = fold (\<lambda>node m. max (Suc (fst node)) m) l 0"

text \<open>\<open>l.insert(l.end(), entry)\<close>: the iterator to the new node, and the list.\<close>

definition lru_insert_end :: "addr \<Rightarrow> lru_list \<Rightarrow> nat \<times> lru_list" where
  "lru_insert_end entry l = (fresh_node l, l @ [(fresh_node l, entry)])"

text \<open>\<open>l.splice(l.end(), l, it)\<close>: \<open>None\<close> when \<open>it\<close> points to no node of the list.\<close>

definition lru_splice_end :: "nat \<Rightarrow> lru_list \<Rightarrow> lru_list option" where
  "lru_splice_end it l =
     (case find (\<lambda>node. fst node = it) l of
        None \<Rightarrow> None
      | Some node \<Rightarrow> Some (filter (\<lambda>node. fst node \<noteq> it) l @ [node]))"

section \<open>coredd/cache.hh\<close>

record cache_statistics =
  hits :: nat
  misses :: nat
  filtered :: nat
  discarded :: nat

text \<open>
  The cache, with the memory of its pool: \<open>entries\<close> holds the cache entry constructed in
  each slot, \<open>None\<close> for a slot with no constructed entry. The snapshot fields of the
  statistics (size, collisions, buckets, load factor) are computed by \<open>statistics()\<close> from
  the table and are not stored here.
\<close>

record ('op, 'r) cache =
  m_set :: hash_table
  m_lru_list :: lru_list
  m_max_size :: nat
  m_stats :: cache_statistics
  m_pool :: "addr list"
  entries :: "addr \<Rightarrow> ('op, 'r) cache_entry option"

text \<open>
  \<open>max_load_factor\<close> is the double nearest to 0.85; \<open>bucket_count() * max_load_factor\<close> is
  truncated to \<open>std::size_t\<close>. The bucket count is a power of two, so the product is exact
  and, below \<open>2^50\<close> buckets, its integer part is that of the exact product with 0.85.
\<close>

definition max_load_factor :: real where
  "max_load_factor = 0.85"

definition cache :: "nat \<Rightarrow> fault + ('op, 'r) cache" where
  "cache sz =
     (let tbl = hash_table sz max_load_factor;
          max_size = nat \<lfloor>real (m_nb_buckets tbl) * max_load_factor\<rfloor>
      in case pool max_size of
           Inl f \<Rightarrow> Inl f
         | Inr free_list \<Rightarrow>
             Inr \<lparr> m_set = tbl,
                   m_lru_list = [],
                   m_max_size = max_size,
                   m_stats = \<lparr> hits = 0, misses = 0, filtered = 0, discarded = 0 \<rparr>,
                   m_pool = free_list,
                   entries = (\<lambda>_. None) \<rparr>)"

text \<open>
  The clean-up of \<open>operator()\<close> (the body of \<open>if (m_set.size() == m_max_size)\<close>).
  \<open>front()\<close> of an empty list reads no node.
\<close>

definition evict :: "('op \<Rightarrow> nat) \<Rightarrow> ('op, 'r) cache \<Rightarrow> fault + ('op, 'r) cache" where
  "evict h c =
     (case m_lru_list c of
        [] \<Rightarrow> Inl Dangling_pointer
      | (_, oldest) # lru \<Rightarrow>
          (case erase (hash_cache_entry h) eq_cache_entry (entries c) oldest (m_set c) of
             Inl f \<Rightarrow> Inl f
           | Inr tbl \<Rightarrow>
               Inr (c \<lparr> m_set := tbl,
                        entries := (entries c) (oldest := None),
                        m_pool := deallocate oldest (m_pool c),
                        m_lru_list := lru,
                        m_stats := (m_stats c) \<lparr> discarded := discarded (m_stats c) + 1 \<rparr> \<rparr>)))"

text \<open>
  The end of \<open>operator()\<close>: the new entry is constructed in a slot of the pool, its node
  is added at the end of the LRU list and the insertion is committed to the bucket that
  the probe recorded.
\<close>

definition store :: "'op \<Rightarrow> 'r \<Rightarrow> nat \<Rightarrow> ('op, 'r) cache \<Rightarrow> fault + ('op, 'r) cache" where
  "store op res commit_data c =
     (case allocate (m_pool c) of
        Inl f \<Rightarrow> Inl f
      | Inr (entry, free_list) \<Rightarrow>
          (case lru_insert_end entry (m_lru_list c) of
             (cit, lru) \<Rightarrow>
               Inr (c \<lparr> m_pool := free_list,
                        entries := (entries c)
                          (entry \<mapsto> \<lparr> m_operation = op, m_result = res, m_lru_cit = cit \<rparr>),
                        m_lru_list := lru,
                        m_set := insert_commit entry commit_data (m_set c) \<rparr>)))"

text \<open>
  \<open>operator()(Operation&& op)\<close>. \<open>h\<close> is \<open>std::hash<Operation>\<close>; \<open>run op c\<close> is
  \<open>op(m_cxt)\<close>: the value or the exception of the evaluation, and the cache as the
  evaluation leaves it (the context may lead back to the cache). The result is a fault, or
  what the caller gets (the exception \<open>Inl\<close> or the result \<open>Inr\<close>) with the cache after
  the call.
\<close>

definition cache_lookup ::
  "('op \<Rightarrow> nat) \<Rightarrow> ('op \<Rightarrow> 'e + bool) list \<Rightarrow>
   ('op \<Rightarrow> ('op, 'r) cache \<Rightarrow> ('e + 'r) \<times> ('op, 'r) cache) \<Rightarrow>
   'op \<Rightarrow> ('op, 'r) cache \<Rightarrow> fault + (('e + 'r) \<times> ('op, 'r) cache)" where
  "cache_lookup h Filters run op c =
     (case apply_filters Filters op of
        Inl e \<Rightarrow> Inr (Inl e, c)
      | Inr False \<Rightarrow>
          Inr (run op (c \<lparr> m_stats := (m_stats c) \<lparr> filtered := filtered (m_stats c) + 1 \<rparr> \<rparr>))
      | Inr True \<Rightarrow>
          (case insert_check (h op) (\<lambda>rhs. op = m_operation rhs) (entries c) (m_set c) of
             Inl f \<Rightarrow> Inl f
           | Inr (Some found, commit_data) \<Rightarrow>
               (case entries c found of
                  None \<Rightarrow> Inl Dangling_pointer
                | Some entry \<Rightarrow>
                    (case lru_splice_end (m_lru_cit entry) (m_lru_list c) of
                       None \<Rightarrow> Inl Dangling_pointer
                     | Some lru \<Rightarrow>
                         Inr (Inr (m_result entry),
                              c \<lparr> m_stats := (m_stats c) \<lparr> hits := hits (m_stats c) + 1 \<rparr>,
                                  m_lru_list := lru \<rparr>)))
           | Inr (None, commit_data) \<Rightarrow>
               (case run op (c \<lparr> m_stats := (m_stats c) \<lparr> misses := misses (m_stats c) + 1 \<rparr> \<rparr>) of
                  (Inl e, c1) \<Rightarrow> Inr (Inl e, c1)
                | (Inr res, c1) \<Rightarrow>
                    (case (if m_size (m_set c1) = m_max_size c1 then evict h c1 else Inr c1) of
                       Inl f \<Rightarrow> Inl f
                     | Inr c2 \<Rightarrow>
                         (case store op res commit_data c2 of
                            Inl f \<Rightarrow> Inl f
                          | Inr c3 \<Rightarrow> Inr (Inr res, c3))))))"

text \<open>\<open>clear()\<close>: the disposer destructs the entry and gives its slot back to the pool.\<close>

definition clear :: "('op, 'r) cache \<Rightarrow> ('op, 'r) cache" where
  "clear c =
     (case clear_and_dispose
             (\<lambda>x (mem, free_list). (mem (x := None), deallocate x free_list))
             (m_set c) (entries c, m_pool c) of
        (tbl, (mem, free_list)) \<Rightarrow> c \<lparr> m_set := tbl, entries := mem, m_pool := free_list \<rparr>)"

text \<open>An operation whose evaluation does not touch the cache: \<open>f op\<close> is what it returns.\<close>

definition pure_run :: "('op \<Rightarrow> 'e + 'r) \<Rightarrow> 'op \<Rightarrow> 'c \<Rightarrow> ('e + 'r) \<times> 'c" where
  "pure_run f op c = (f op, c)"

section \<open>coredd/ptr.hh and coredd/unicity.hh\<close>

text \<open>
  The deletion handler of a \<open>Unique\<close> type is a process-wide slot: unset at first (calling
  it fails an assertion), set by the constructor of \<open>unicity\<close> to the \<open>erase\<close> of its
  table. The state is the \<open>unicity\<close> object together with that slot.
\<close>

datatype handler = Unset | Reset | Erase_from_table

record 'a unicity =
  m_ut :: "'a unique_table"
  deletion_handler :: handler

definition unicity :: "nat \<Rightarrow> 'a unicity" where
  "unicity ut_size = \<lparr> m_ut = unique_table ut_size, deletion_handler = Erase_from_table \<rparr>"

datatype ptr = Ptr (m_x: "addr option")

definition call_deletion_handler :: "('a \<Rightarrow> nat) \<Rightarrow> addr \<Rightarrow> 'a unicity \<Rightarrow> fault + 'a unicity" where
  "call_deletion_handler h x s =
     (case deletion_handler s of
        Unset \<Rightarrow> Inl Unset_handler
      | Reset \<Rightarrow> Inl Reset_handler
      | Erase_from_table \<Rightarrow>
          (case unique_table_erase h x (m_ut s) of
             Inl f \<Rightarrow> Inl f
           | Inr t \<Rightarrow> Inr (s \<lparr> m_ut := t \<rparr>)))"

text \<open>\<open>m_x->increment_reference_counter()\<close> and \<open>m_x->decrement_reference_counter()\<close>.\<close>

definition increment_at :: "addr \<Rightarrow> 'a unicity \<Rightarrow> fault + 'a unicity" where
  "increment_at x s =
     (case objects (m_ut s) x of
        None \<Rightarrow> Inl Dangling_pointer
      | Some u \<Rightarrow>
          (case increment_reference_counter u of
             Inl f \<Rightarrow> Inl f
           | Inr u' \<Rightarrow> Inr (s \<lparr> m_ut := (m_ut s) \<lparr> objects := (objects (m_ut s)) (x \<mapsto> u') \<rparr> \<rparr>)))"

definition decrement_at :: "addr \<Rightarrow> 'a unicity \<Rightarrow> fault + 'a unicity" where
  "decrement_at x s =
     (case objects (m_ut s) x of
        None \<Rightarrow> Inl Dangling_pointer
      | Some u \<Rightarrow>
          (case decrement_reference_counter u of
             Inl f \<Rightarrow> Inl f
           | Inr u' \<Rightarrow> Inr (s \<lparr> m_ut := (m_ut s) \<lparr> objects := (objects (m_ut s)) (x \<mapsto> u') \<rparr> \<rparr>)))"

text \<open>
  The block that the copy operator, the move operator and the destructor share:
  \<open>if (m_x != nullptr) { decrement; if (m_x->is_not_referenced()) handler(m_x); }\<close>.
\<close>

definition release :: "('a \<Rightarrow> nat) \<Rightarrow> ptr \<Rightarrow> 'a unicity \<Rightarrow> fault + 'a unicity" where
  "release h this s =
     (case m_x this of
        None \<Rightarrow> Inr s
      | Some x \<Rightarrow>
          (case decrement_at x s of
             Inl f \<Rightarrow> Inl f
           | Inr s1 \<Rightarrow>
               (case objects (m_ut s1) x of
                  None \<Rightarrow> Inl Dangling_pointer
                | Some u \<Rightarrow> if is_not_referenced u then call_deletion_handler h x s1 else Inr s1)))"

text \<open>\<open>explicit ptr(Unique* p)\<close>.\<close>

definition ptr :: "addr \<Rightarrow> 'a unicity \<Rightarrow> fault + (ptr \<times> 'a unicity)" where
  "ptr p s = (case increment_at p s of Inl f \<Rightarrow> Inl f | Inr s1 \<Rightarrow> Inr (Ptr (Some p), s1))"

text \<open>\<open>ptr(const ptr& other)\<close>.\<close>

definition ptr_copy :: "ptr \<Rightarrow> 'a unicity \<Rightarrow> fault + (ptr \<times> 'a unicity)" where
  "ptr_copy other s =
     (case m_x other of
        None \<Rightarrow> Inl Null_pointer
      | Some x \<Rightarrow> (case increment_at x s of Inl f \<Rightarrow> Inl f | Inr s1 \<Rightarrow> Inr (Ptr (Some x), s1)))"

text \<open>
  \<open>operator=(const ptr& other)\<close>: the new value of \<open>*this\<close>. The source reads
  \<open>other.m_x\<close> after the release and writes \<open>m_x\<close> only then, so the value read is the one
  \<open>other\<close> had at the call, also when \<open>other\<close> is \<open>*this\<close>.
\<close>

definition ptr_assign :: "('a \<Rightarrow> nat) \<Rightarrow> ptr \<Rightarrow> ptr \<Rightarrow> 'a unicity \<Rightarrow> fault + (ptr \<times> 'a unicity)" where
  "ptr_assign h this other s =
     (case m_x other of
        None \<Rightarrow> Inl Null_pointer
      | Some y \<Rightarrow>
          (case release h this s of
             Inl f \<Rightarrow> Inl f
           | Inr s1 \<Rightarrow>
               (case increment_at y s1 of
                  Inl f \<Rightarrow> Inl f
                | Inr s2 \<Rightarrow> Inr (Ptr (Some y), s2))))"

text \<open>\<open>ptr(ptr&& other)\<close>: the new handle and what is left of \<open>other\<close>.\<close>

definition ptr_move :: "ptr \<Rightarrow> ptr \<times> ptr" where
  "ptr_move other = (Ptr (m_x other), Ptr None)"

text \<open>
  \<open>operator=(ptr&& other)\<close>: what \<open>*this\<close> and \<open>other\<close> hold afterwards, and the state.
  \<open>self\<close> says that \<open>other\<close> is \<open>*this\<close>, the same handle object: then \<open>m_x = other.m_x\<close>
  changes nothing and \<open>other.m_x = nullptr\<close> empties the one handle there is.
\<close>

definition ptr_move_assign ::
  "('a \<Rightarrow> nat) \<Rightarrow> ptr \<Rightarrow> ptr \<Rightarrow> bool \<Rightarrow> 'a unicity \<Rightarrow>
     fault + (ptr \<times> ptr \<times> 'a unicity)" where
  "ptr_move_assign h this other self s =
     (case release h this s of
        Inl f \<Rightarrow> Inl f
      | Inr s1 \<Rightarrow>
          if self then Inr (Ptr None, Ptr None, s1)
          else Inr (Ptr (m_x other), Ptr None, s1))"

text \<open>\<open>~ptr()\<close>.\<close>

definition ptr_destroy :: "('a \<Rightarrow> nat) \<Rightarrow> ptr \<Rightarrow> 'a unicity \<Rightarrow> fault + 'a unicity" where
  "ptr_destroy h this s = release h this s"

definition hash_ptr :: "(addr option \<Rightarrow> nat) \<Rightarrow> ptr \<Rightarrow> nat" where
  "hash_ptr hp x = seed hp (m_x x)"

definition eq_ptr :: "ptr \<Rightarrow> ptr \<Rightarrow> bool" where
  "eq_ptr lhs rhs \<longleftrightarrow> m_x lhs = m_x rhs"

text \<open>
  \<open>new (addr) unique_type{...}\<close>: the placement \<open>new\<close> writes an object of
  \<open>sizeof(Unique)\<close> bytes at \<open>addr\<close>, with the payload \<open>args\<close>. A block that is not
  allocated, or one of fewer bytes, is written outside.
\<close>

definition placement_new ::
  "nat \<Rightarrow> addr \<Rightarrow> 'a \<Rightarrow> 'a unique_table \<Rightarrow> fault + 'a unique_table" where
  "placement_new sizeof_Unique addr args t =
     (case blocks t addr of
        None \<Rightarrow> Inl Dangling_pointer
      | Some n \<Rightarrow>
          if n < sizeof_Unique then Inl Out_of_bounds
          else Inr (t \<lparr> objects := (objects t) (addr \<mapsto> unique args) \<rparr>))"

text \<open>
  \<open>make_sized<T>(size, args...)\<close>: \<open>sizeof_T\<close> is \<open>sizeof(T)\<close> and \<open>args\<close> the payload
  that the placement \<open>new\<close> constructs. \<open>make<T>(args...)\<close> is \<open>make_sized\<close> with
  \<open>sizeof(T)\<close>.
\<close>

definition make_sized ::
  "('a \<Rightarrow> nat) \<Rightarrow> nat \<Rightarrow> nat \<Rightarrow> addr \<Rightarrow> nat \<Rightarrow> 'a \<Rightarrow> 'a unicity \<Rightarrow> fault + (ptr \<times> 'a unicity)" where
  "make_sized h sizeof_Unique sizeof_T fresh sz args s =
     (if sz < sizeof_T then Inl Bad_size
      else
        (case unique_table_allocate sizeof_Unique sz fresh (m_ut s) of
           Inl f \<Rightarrow> Inl f
         | Inr (addr, t1) \<Rightarrow>
             (case placement_new sizeof_Unique addr args t1 of
                Inl f \<Rightarrow> Inl f
              | Inr t1' \<Rightarrow>
                  (case unify h sizeof_Unique addr sz t1' of
                     Inl f \<Rightarrow> Inl f
                   | Inr (u, t2) \<Rightarrow> ptr u (s \<lparr> m_ut := t2 \<rparr>)))))"

definition make ::
  "('a \<Rightarrow> nat) \<Rightarrow> nat \<Rightarrow> nat \<Rightarrow> addr \<Rightarrow> 'a \<Rightarrow> 'a unicity \<Rightarrow> fault + (ptr \<times> 'a unicity)" where
  "make h sizeof_Unique sizeof_T fresh args s =
     make_sized h sizeof_Unique sizeof_T fresh sizeof_T args s"

section \<open>The contract of the table and its invariant\<close>

text \<open>
  What the table asks of \<open>Data\<close> (spec 6): equality is an equivalence, and equal values
  have equal hashes.
\<close>

definition hash_eq_contract :: "('d \<Rightarrow> nat) \<Rightarrow> ('d \<Rightarrow> 'd \<Rightarrow> bool) \<Rightarrow> bool" where
  "hash_eq_contract hashD eqD \<longleftrightarrow>
     (\<forall>a. eqD a a) \<and> (\<forall>a b. eqD a b \<longrightarrow> eqD b a) \<and>
     (\<forall>a b c. eqD a b \<longrightarrow> eqD b c \<longrightarrow> eqD a c) \<and>
     (\<forall>a b. eqD a b \<longrightarrow> hashD a = hashD b)"

text \<open>
  The invariant of a bucket array (spec 4.1): there is at least one bucket; every chained
  pointer leads to an object whose hash, recomputed, is the index of its bucket; no
  pointer is chained twice; no two chained objects are equal; the size counts the
  chained pointers.
\<close>

definition buckets_inv ::
  "('d \<Rightarrow> nat) \<Rightarrow> ('d \<Rightarrow> 'd \<Rightarrow> bool) \<Rightarrow> (addr \<Rightarrow> 'd option) \<Rightarrow> nat \<Rightarrow> addr list list \<Rightarrow> nat \<Rightarrow> bool" where
  "buckets_inv hashD eqD deref nb bs sz \<longleftrightarrow>
     length bs = nb \<and> 0 < nb \<and>
     (\<forall>i<length bs. \<forall>x\<in>set (bs ! i). \<exists>d. deref x = Some d \<and> hashD d AND (nb - 1) = i) \<and>
     distinct (concat bs) \<and>
     (\<forall>x\<in>set (concat bs). \<forall>y\<in>set (concat bs). \<forall>dx dy.
         deref x = Some dx \<longrightarrow> deref y = Some dy \<longrightarrow> eqD dx dy \<longrightarrow> x = y) \<and>
     sz = length (concat bs)"

definition elements :: "hash_table \<Rightarrow> addr list" where
  "elements t = concat (m_buckets t)"

definition table_inv ::
  "('d \<Rightarrow> nat) \<Rightarrow> ('d \<Rightarrow> 'd \<Rightarrow> bool) \<Rightarrow> (addr \<Rightarrow> 'd option) \<Rightarrow> hash_table \<Rightarrow> bool" where
  "table_inv hashD eqD deref t \<longleftrightarrow>
     buckets_inv hashD eqD deref (m_nb_buckets t) (m_buckets t) (m_size t)"

section \<open>The invariant of the cache\<close>

text \<open>
  What every lookup and \<open>clear\<close> keep: the table is well formed; the constructed entries
  are exactly the chained ones; the free list holds each free slot once, and free and
  used slots together are the \<open>m_max_size\<close> slots of the pool; the nodes of the LRU list
  are distinct and point into the pool; the iterator stored in an entry is the node of
  the list that points to the entry.
\<close>

definition cache_inv :: "('op \<Rightarrow> nat) \<Rightarrow> ('op, 'r) cache \<Rightarrow> bool" where
  "cache_inv h c \<longleftrightarrow>
     table_inv (hash_cache_entry h) eq_cache_entry (entries c) (m_set c) \<and>
     (\<forall>p. entries c p \<noteq> None \<longleftrightarrow> p \<in> set (elements (m_set c))) \<and>
     distinct (m_pool c) \<and>
     set (m_pool c) \<inter> set (elements (m_set c)) = {} \<and>
     m_size (m_set c) + length (m_pool c) = m_max_size c \<and>
     0 < m_max_size c \<and>
     distinct (map fst (m_lru_list c)) \<and>
     snd ` set (m_lru_list c) \<subseteq> set (m_pool c) \<union> set (elements (m_set c)) \<and>
     (\<forall>p e. entries c p = Some e \<longrightarrow> (m_lru_cit e, p) \<in> set (m_lru_list c))"

text \<open>The invariant of the LRU list: it holds exactly the chained entries, each once.\<close>

definition lru_exact :: "('op, 'r) cache \<Rightarrow> bool" where
  "lru_exact c \<longleftrightarrow>
     distinct (map snd (m_lru_list c)) \<and>
     snd ` set (m_lru_list c) = set (elements (m_set c))"

text \<open>Every stored result is what evaluating the stored operation returns.\<close>

definition results_of :: "('op \<Rightarrow> 'e + 'r) \<Rightarrow> ('op, 'r) cache \<Rightarrow> bool" where
  "results_of f c \<longleftrightarrow> (\<forall>p e. entries c p = Some e \<longrightarrow> f (m_operation e) = Inr (m_result e))"

text \<open>
  The accesses of a sequence of lookups: the operations that no filter rejected and whose
  evaluation returned, in order. \<open>last_access\<close> is the position, counted from one, of the
  last access to an operation (zero when there is none).
\<close>

definition accesses :: "('op \<Rightarrow> 'e + bool) list \<Rightarrow> ('op \<Rightarrow> 'e + 'r) \<Rightarrow> 'op list \<Rightarrow> 'op list" where
  "accesses Filters f ops =
     filter (\<lambda>op. apply_filters Filters op = Inr True \<and> \<not> isl (f op)) ops"

fun last_access :: "'a list \<Rightarrow> 'a \<Rightarrow> nat" where
  "last_access [] x = 0"
| "last_access (y # ys) x =
     (if x \<in> set ys then Suc (last_access ys x) else if x = y then 1 else 0)"

text \<open>
  The operations of the entries that the nodes of the LRU list point to, front first. The
  LRU discipline in the words of the spec (P5): an access to a cached operation moves it to
  the end, an access to a new one adds it at the end, after the front has been dropped when
  the capacity is reached; \<open>spec_lru_model\<close> is what a sequence of accesses leaves.
\<close>

definition lru_operations :: "('op, 'r) cache \<Rightarrow> 'op list" where
  "lru_operations c =
     List.map_filter (\<lambda>node. map_option m_operation (entries c (snd node))) (m_lru_list c)"

definition spec_lru_access :: "nat \<Rightarrow> 'op \<Rightarrow> 'op list \<Rightarrow> 'op list" where
  "spec_lru_access cap op l =
     (if op \<in> set l then filter (\<lambda>x. x \<noteq> op) l @ [op]
      else (if length l = cap then tl l else l) @ [op])"

definition spec_lru_model :: "nat \<Rightarrow> 'op list \<Rightarrow> 'op list" where
  "spec_lru_model cap ops = fold (spec_lru_access cap) ops []"

section \<open>The invariant of the unification table\<close>

text \<open>
  What \<open>allocate\<close>, \<open>operator()\<close> and \<open>erase\<close> keep: the table is well formed; the constructed
  objects are exactly the chained ones; every chained object lives in an allocated block;
  the cached slab is an allocated block that holds no chained object.
\<close>

definition ut_inv :: "('a \<Rightarrow> nat) \<Rightarrow> 'a unique_table \<Rightarrow> bool" where
  "ut_inv h t \<longleftrightarrow>
     table_inv (hash_unique h) eq_unique (objects t) (unique_table.m_set t) \<and>
     (\<forall>x. objects t x \<noteq> None \<longleftrightarrow> x \<in> set (elements (unique_table.m_set t))) \<and>
     (\<forall>x\<in>set (elements (unique_table.m_set t)). blocks t x \<noteq> None) \<and>
     (\<forall>a. m_cache t = Some a \<longrightarrow>
        a \<notin> set (elements (unique_table.m_set t)) \<and> blocks t a \<noteq> None)"

text \<open>Every allocated block has room for a \<open>Unique\<close>.\<close>

definition blocks_fit :: "nat \<Rightarrow> 'a unique_table \<Rightarrow> bool" where
  "blocks_fit sizeof_Unique t \<longleftrightarrow> (\<forall>a n. blocks t a = Some n \<longrightarrow> sizeof_Unique \<le> n)"

section \<open>Sequences of lookups\<close>

text \<open>
  The lookups of the operations of a list, one after the other, on a cache whose
  operations do not themselves touch the cache; what each lookup returns is dropped.
\<close>

fun cache_lookups ::
  "('op \<Rightarrow> nat) \<Rightarrow> ('op \<Rightarrow> 'e + bool) list \<Rightarrow> ('op \<Rightarrow> 'e + 'r) \<Rightarrow> 'op list \<Rightarrow>
     ('op, 'r) cache \<Rightarrow> fault + ('op, 'r) cache" where
  "cache_lookups h Filters f [] c = Inr c"
| "cache_lookups h Filters f (op # ops) c =
     (case cache_lookup h Filters (pure_run f) op c of
        Inl flt \<Rightarrow> Inl flt
      | Inr (_, c') \<Rightarrow> cache_lookups h Filters f ops c')"

text \<open>
  What a client does with a \<open>unicity\<close> and its handles, one step at a time: \<open>make_sized\<close>
  (with the address that \<open>new char[]\<close> would return), the copy of a handle, a copy
  assignment, a move assignment and the destruction of a handle. A sequence of steps stops
  at the first fault.
\<close>

datatype 'a action =
  Make_sized addr nat 'a | Copy ptr | Assign ptr ptr | Move_assign ptr ptr bool | Destroy ptr

fun apply_action ::
  "('a \<Rightarrow> nat) \<Rightarrow> nat \<Rightarrow> nat \<Rightarrow> 'a action \<Rightarrow> 'a unicity \<Rightarrow> fault + 'a unicity" where
  "apply_action h sizeof_Unique sizeof_T (Make_sized fresh sz args) s =
     (case make_sized h sizeof_Unique sizeof_T fresh sz args s of
        Inl f \<Rightarrow> Inl f | Inr (_, s') \<Rightarrow> Inr s')"
| "apply_action h sizeof_Unique sizeof_T (Copy other) s =
     (case ptr_copy other s of Inl f \<Rightarrow> Inl f | Inr (_, s') \<Rightarrow> Inr s')"
| "apply_action h sizeof_Unique sizeof_T (Assign this other) s =
     (case ptr_assign h this other s of Inl f \<Rightarrow> Inl f | Inr (_, s') \<Rightarrow> Inr s')"
| "apply_action h sizeof_Unique sizeof_T (Move_assign this other self) s =
     (case ptr_move_assign h this other self s of
        Inl f \<Rightarrow> Inl f | Inr (_, _, s') \<Rightarrow> Inr s')"
| "apply_action h sizeof_Unique sizeof_T (Destroy this) s = ptr_destroy h this s"

fun run_actions ::
  "('a \<Rightarrow> nat) \<Rightarrow> nat \<Rightarrow> nat \<Rightarrow> 'a action list \<Rightarrow> 'a unicity \<Rightarrow> fault + 'a unicity" where
  "run_actions h sizeof_Unique sizeof_T [] s = Inr s"
| "run_actions h sizeof_Unique sizeof_T (a # rest) s =
     (case apply_action h sizeof_Unique sizeof_T a s of
        Inl f \<Rightarrow> Inl f
      | Inr s' \<Rightarrow> run_actions h sizeof_Unique sizeof_T rest s')"

section \<open>Example values\<close>

text \<open>
  Operations are numbers, hashed by themselves; evaluating \<open>n\<close> gives \<open>10 * n\<close>, and
  evaluating \<open>99\<close> throws. \<open>empty3\<close> is the cache that the constructor builds from the
  size 4: four buckets, room for three entries.
\<close>

definition id_hash :: "nat \<Rightarrow> nat" where
  "id_hash n = n"

definition times_ten :: "nat \<Rightarrow> unit + nat" where
  "times_ten n = (if n = 99 then Inl () else Inr (n * 10))"

definition three_filters :: "(nat \<Rightarrow> unit + bool) list" where
  "three_filters = [\<lambda>_. Inr True, \<lambda>n. Inr (n \<noteq> 0), \<lambda>_. Inl ()]"

definition empty3 :: "(nat, nat) cache" where
  "empty3 =
     \<lparr> m_set = \<lparr> m_nb_buckets = 4, m_size = 0, m_buckets = [[], [], [], []],
                 m_max_load_factor = 0.85, m_nb_rehash = 0 \<rparr>,
       m_lru_list = [],
       m_max_size = 3,
       m_stats = \<lparr> hits = 0, misses = 0, filtered = 0, discarded = 0 \<rparr>,
       m_pool = [0, 1, 2],
       entries = (\<lambda>_. None) \<rparr>"

text \<open>The cache after the lookup of \<open>1\<close> in \<open>empty3\<close>.\<close>

definition one_entry :: "(nat, nat) cache" where
  "one_entry =
     \<lparr> m_set = \<lparr> m_nb_buckets = 4, m_size = 1, m_buckets = [[], [0], [], []],
                 m_max_load_factor = 0.85, m_nb_rehash = 0 \<rparr>,
       m_lru_list = [(0, 0)],
       m_max_size = 3,
       m_stats = \<lparr> hits = 0, misses = 1, filtered = 0, discarded = 0 \<rparr>,
       m_pool = [1, 2],
       entries = (\<lambda>_. None) (0 \<mapsto> \<lparr> m_operation = 1, m_result = 10, m_lru_cit = 0 \<rparr>) \<rparr>"

text \<open>
  The same cache after the lookups of \<open>1\<close>, \<open>2\<close> and \<open>3\<close>; after \<open>clear()\<close>; after the
  lookups of \<open>4\<close>, \<open>5\<close> and \<open>6\<close> that follow; and after the lookup of \<open>7\<close>.
\<close>

definition full3 :: "(nat, nat) cache" where
  "full3 =
     \<lparr> m_set = \<lparr> m_nb_buckets = 4, m_size = 3, m_buckets = [[], [0], [1], [2]],
                 m_max_load_factor = 0.85, m_nb_rehash = 0 \<rparr>,
       m_lru_list = [(0, 0), (1, 1), (2, 2)],
       m_max_size = 3,
       m_stats = \<lparr> hits = 0, misses = 3, filtered = 0, discarded = 0 \<rparr>,
       m_pool = [],
       entries = (\<lambda>_. None)
         (0 \<mapsto> \<lparr> m_operation = 1, m_result = 10, m_lru_cit = 0 \<rparr>,
          1 \<mapsto> \<lparr> m_operation = 2, m_result = 20, m_lru_cit = 1 \<rparr>,
          2 \<mapsto> \<lparr> m_operation = 3, m_result = 30, m_lru_cit = 2 \<rparr>) \<rparr>"

definition cleared3 :: "(nat, nat) cache" where
  "cleared3 =
     \<lparr> m_set = \<lparr> m_nb_buckets = 4, m_size = 0, m_buckets = [[], [], [], []],
                 m_max_load_factor = 0.85, m_nb_rehash = 0 \<rparr>,
       m_lru_list = [(0, 0), (1, 1), (2, 2)],
       m_max_size = 3,
       m_stats = \<lparr> hits = 0, misses = 3, filtered = 0, discarded = 0 \<rparr>,
       m_pool = [2, 1, 0],
       entries = (\<lambda>_. None) \<rparr>"

definition refilled3 :: "(nat, nat) cache" where
  "refilled3 =
     \<lparr> m_set = \<lparr> m_nb_buckets = 4, m_size = 3, m_buckets = [[2], [1], [0], []],
                 m_max_load_factor = 0.85, m_nb_rehash = 0 \<rparr>,
       m_lru_list = [(0, 0), (1, 1), (2, 2), (3, 2), (4, 1), (5, 0)],
       m_max_size = 3,
       m_stats = \<lparr> hits = 0, misses = 6, filtered = 0, discarded = 0 \<rparr>,
       m_pool = [],
       entries = (\<lambda>_. None)
         (2 \<mapsto> \<lparr> m_operation = 4, m_result = 40, m_lru_cit = 3 \<rparr>,
          1 \<mapsto> \<lparr> m_operation = 5, m_result = 50, m_lru_cit = 4 \<rparr>,
          0 \<mapsto> \<lparr> m_operation = 6, m_result = 60, m_lru_cit = 5 \<rparr>) \<rparr>"

definition wrong3 :: "(nat, nat) cache" where
  "wrong3 =
     \<lparr> m_set = \<lparr> m_nb_buckets = 4, m_size = 3, m_buckets = [[2], [1], [], [0]],
                 m_max_load_factor = 0.85, m_nb_rehash = 0 \<rparr>,
       m_lru_list = [(1, 1), (2, 2), (3, 2), (4, 1), (5, 0), (6, 0)],
       m_max_size = 3,
       m_stats = \<lparr> hits = 0, misses = 7, filtered = 0, discarded = 1 \<rparr>,
       m_pool = [],
       entries = (\<lambda>_. None)
         (2 \<mapsto> \<lparr> m_operation = 4, m_result = 40, m_lru_cit = 3 \<rparr>,
          1 \<mapsto> \<lparr> m_operation = 5, m_result = 50, m_lru_cit = 4 \<rparr>,
          0 \<mapsto> \<lparr> m_operation = 7, m_result = 70, m_lru_cit = 6 \<rparr>) \<rparr>"

text \<open>
  A \<open>unicity\<close> of four buckets whose payloads are numbers, after \<open>make\<close> built the value
  \<open>7\<close> in a block of 24 bytes at the address 100 and returned the only handle to it; and the
  same after that handle is gone.
\<close>

definition one_handle :: "nat unicity" where
  "one_handle =
     \<lparr> m_ut =
         \<lparr> unique_table.m_set = \<lparr> m_nb_buckets = 4, m_size = 1, m_buckets = [[], [], [], [100]],
                     m_max_load_factor = 0.75, m_nb_rehash = 0 \<rparr>,
           unique_table.m_stats =
             \<lparr> access = 1, unique_table_statistics.hits = 0,
               unique_table_statistics.misses = 1, peak = 1 \<rparr>,
           m_cache = None,
           m_cache_size = 0,
           objects = (\<lambda>_. None) (100 \<mapsto> \<lparr> m_ref_count = 1, m_data = 7 \<rparr>),
           blocks = (\<lambda>_. None) (100 \<mapsto> 24) \<rparr>,
       deletion_handler = Erase_from_table \<rparr>"

definition no_handle :: "nat unicity" where
  "no_handle =
     \<lparr> m_ut =
         \<lparr> unique_table.m_set = \<lparr> m_nb_buckets = 4, m_size = 0, m_buckets = [[], [], [], []],
                     m_max_load_factor = 0.75, m_nb_rehash = 0 \<rparr>,
           unique_table.m_stats =
             \<lparr> access = 1, unique_table_statistics.hits = 0,
               unique_table_statistics.misses = 1, peak = 1 \<rparr>,
           m_cache = None,
           m_cache_size = 0,
           objects = (\<lambda>_. None),
           blocks = (\<lambda>_. None) \<rparr>,
       deletion_handler = Erase_from_table \<rparr>"







text \<open>The full cache \<open>full3\<close> after the lookup of \<open>4\<close>.\<close>

definition evicted3 :: "(nat, nat) cache" where
  "evicted3 =
     \<lparr> m_set = \<lparr> m_nb_buckets = 4, m_size = 3, m_buckets = [[0], [], [1], [2]],
                 m_max_load_factor = 0.85, m_nb_rehash = 0 \<rparr>,
       m_lru_list = [(1, 1), (2, 2), (3, 0)],
       m_max_size = 3,
       m_stats = \<lparr> hits = 0, misses = 4, filtered = 0, discarded = 1 \<rparr>,
       m_pool = [],
       entries = (\<lambda>_. None)
         (1 \<mapsto> \<lparr> m_operation = 2, m_result = 20, m_lru_cit = 1 \<rparr>,
          2 \<mapsto> \<lparr> m_operation = 3, m_result = 30, m_lru_cit = 2 \<rparr>,
          0 \<mapsto> \<lparr> m_operation = 4, m_result = 40, m_lru_cit = 3 \<rparr>) \<rparr>"

text \<open>
  An evaluation that leads back to the cache: evaluating \<open>n\<close> below ten gives \<open>10 * n\<close>;
  evaluating \<open>n\<close> from ten on looks up \<open>n - 10\<close> in the same cache and adds one to what
  the lookup returns, and throws when that lookup cannot be carried out. \<open>two_entries\<close> is
  \<open>empty3\<close> after the lookups of \<open>1\<close> and \<open>2\<close>, and \<open>reentered3\<close> is \<open>two_entries\<close> after the
  lookup of \<open>13\<close>: the evaluation stores the entry of \<open>3\<close> in the last free slot, so that
  the entry of \<open>1\<close> is evicted for the entry of \<open>13\<close>.
\<close>

definition nested_run :: "nat \<Rightarrow> (nat, nat) cache \<Rightarrow> (unit + nat) \<times> (nat, nat) cache" where
  "nested_run op c =
     (if op < 10 then pure_run times_ten op c
      else (case cache_lookup id_hash [] (pure_run times_ten) (op - 10) c of
              Inl flt \<Rightarrow> (Inl (), c)
            | Inr (Inl e, c') \<Rightarrow> (Inl e, c')
            | Inr (Inr r, c') \<Rightarrow> (Inr (r + 1), c')))"

definition two_entries :: "(nat, nat) cache" where
  "two_entries =
     \<lparr> m_set = \<lparr> m_nb_buckets = 4, m_size = 2, m_buckets = [[], [0], [1], []],
                 m_max_load_factor = 0.85, m_nb_rehash = 0 \<rparr>,
       m_lru_list = [(0, 0), (1, 1)],
       m_max_size = 3,
       m_stats = \<lparr> hits = 0, misses = 2, filtered = 0, discarded = 0 \<rparr>,
       m_pool = [2],
       entries = (\<lambda>_. None)
         (0 \<mapsto> \<lparr> m_operation = 1, m_result = 10, m_lru_cit = 0 \<rparr>,
          1 \<mapsto> \<lparr> m_operation = 2, m_result = 20, m_lru_cit = 1 \<rparr>) \<rparr>"

definition reentered3 :: "(nat, nat) cache" where
  "reentered3 =
     \<lparr> m_set = \<lparr> m_nb_buckets = 4, m_size = 3, m_buckets = [[], [0], [1], [2]],
                 m_max_load_factor = 0.85, m_nb_rehash = 0 \<rparr>,
       m_lru_list = [(1, 1), (2, 2), (3, 0)],
       m_max_size = 3,
       m_stats = \<lparr> hits = 0, misses = 4, filtered = 0, discarded = 1 \<rparr>,
       m_pool = [],
       entries = (\<lambda>_. None)
         (1 \<mapsto> \<lparr> m_operation = 2, m_result = 20, m_lru_cit = 1 \<rparr>,
          2 \<mapsto> \<lparr> m_operation = 3, m_result = 30, m_lru_cit = 2 \<rparr>,
          0 \<mapsto> \<lparr> m_operation = 13, m_result = 31, m_lru_cit = 3 \<rparr>) \<rparr>"

text \<open>
  The \<open>unicity\<close> of four buckets after \<open>make\<close> of \<open>7\<close>, of \<open>7\<close> again, of \<open>9\<close> and of \<open>5\<close>, the
  allocator offering the addresses 100, 200 and 300 (the third \<open>make\<close> takes the cached
  slab, the fourth makes the table grow), and the destruction of the handle to \<open>5\<close>.
\<close>

definition two_values :: "nat unicity" where
  "two_values =
     \<lparr> m_ut =
         \<lparr> unique_table.m_set =
             \<lparr> m_nb_buckets = 8, m_size = 2,
               m_buckets = [[], [200], [], [], [], [], [], [100]],
               m_max_load_factor = 0.75, m_nb_rehash = 1 \<rparr>,
           unique_table.m_stats =
             \<lparr> access = 4, unique_table_statistics.hits = 1,
               unique_table_statistics.misses = 3, peak = 3 \<rparr>,
           m_cache = None,
           m_cache_size = 0,
           objects = (\<lambda>_. None) (100 \<mapsto> \<lparr> m_ref_count = 2, m_data = 7 \<rparr>,
                                   200 \<mapsto> \<lparr> m_ref_count = 1, m_data = 9 \<rparr>),
           blocks = (\<lambda>_. None) (100 \<mapsto> 24, 200 \<mapsto> 24) \<rparr>,
       deletion_handler = Erase_from_table \<rparr>"



section \<open>The hash table keeps its invariant\<close>

lemma and_mask_less: "0 < nb \<Longrightarrow> (h::nat) AND (nb - 1) < nb"
proof -
  assume nb: "0 < nb"
  have "int h AND int (nb - 1) \<le> int (nb - 1)" by (rule AND_upper2) simp
  then have "nat (int h AND int (nb - 1)) \<le> nat (int (nb - 1))" by (rule nat_mono)
  then have "h AND (nb - 1) \<le> nb - 1" by (simp add: and_nat_def)
  with nb show ?thesis by simp
qed

lemma chain_find_live:
  assumes "\<forall>x\<in>set cs. deref x \<noteq> None"
  shows "chain_find deref eq cs = Inr (find (\<lambda>x. \<exists>d. deref x = Some d \<and> eq d) cs)"
  using assms by (induction cs) (auto split: option.splits)

lemma chain_erase_live:
  assumes "\<forall>x\<in>set cs. deref x \<noteq> None"
  shows "chain_erase deref eq cs =
     Inr (case find (\<lambda>x. \<exists>d. deref x = Some d \<and> eq d) cs of
            None \<Rightarrow> None | Some y \<Rightarrow> Some (remove1 y cs))"
  using assms
proof (induction cs)
  case Nil
  then show ?case by simp
next
  case (Cons c cs)
  then obtain d where d: "deref c = Some d" by auto
  show ?case
  proof (cases "eq d")
    case True
    with d show ?thesis by simp
  next
    case False
    have ih: "chain_erase deref eq cs =
     Inr (case find (\<lambda>x. \<exists>d. deref x = Some d \<and> eq d) cs of
            None \<Rightarrow> None | Some y \<Rightarrow> Some (remove1 y cs))" using Cons by simp
    show ?thesis
    proof (cases "find (\<lambda>x. \<exists>d. deref x = Some d \<and> eq d) cs")
      case None
      with d False ih show ?thesis by simp
    next
      case (Some y)
      then have "\<exists>dy. deref y = Some dy \<and> eq dy"
        by (auto simp: find_Some_iff)
      with d False have "y \<noteq> c" by auto
      with d False ih Some show ?thesis by simp
    qed
  qed
qed

lemma concat_update:
  "pos < length bs \<Longrightarrow>
     concat (bs[pos := c]) = concat (take pos bs) @ c @ concat (drop (Suc pos) bs)"
  by (simp add: upd_conv_take_nth_drop)

lemma concat_split_at:
  "pos < length bs \<Longrightarrow>
     concat bs = concat (take pos bs) @ bs ! pos @ concat (drop (Suc pos) bs)"
  using concat_update [of pos bs "bs ! pos"] by simp

lemma in_concat_nth: "x \<in> set (concat bs) \<longleftrightarrow> (\<exists>i<length bs. x \<in> set (bs ! i))"
proof
  assume "x \<in> set (concat bs)"
  then obtain c where "c \<in> set bs" "x \<in> set c" by auto
  then show "\<exists>i<length bs. x \<in> set (bs ! i)" by (metis in_set_conv_nth)
next
  assume "\<exists>i<length bs. x \<in> set (bs ! i)"
  then obtain i where "i < length bs" "x \<in> set (bs ! i)" by blast
  then show "x \<in> set (concat bs)" using nth_mem by fastforce
qed


lemma set_concat_update:
  "pos < length bs \<Longrightarrow>
     set (concat (bs[pos := c])) =
       set (concat (take pos bs)) \<union> set c \<union> set (concat (drop (Suc pos) bs))"
  by (simp add: concat_update Un_assoc)

lemma set_concat_update_add:
  assumes "pos < length bs" and "set c = insert x (set (bs ! pos))"
  shows "set (concat (bs[pos := c])) = insert x (set (concat bs))"
proof -
  have "set (concat bs) =
          set (concat (take pos bs)) \<union> set (bs ! pos) \<union> set (concat (drop (Suc pos) bs))"
    using set_concat_update [OF assms(1), of "bs ! pos"] by simp
  then show ?thesis
    unfolding set_concat_update [OF assms(1)] assms(2) by blast
qed

lemma length_concat_update_add:
  assumes "pos < length bs" and "length c = Suc (length (bs ! pos))"
  shows "length (concat (bs[pos := c])) = Suc (length (concat bs))"
  using concat_split_at [OF assms(1)] concat_update [OF assms(1), of c] assms(2) by simp

lemma distinct_concat_update_add:
  assumes "pos < length bs" and "distinct (concat bs)" and "x \<notin> set (concat bs)"
    and "distinct c" and "set c = insert x (set (bs ! pos))"
  shows "distinct (concat (bs[pos := c]))"
proof -
  let ?A = "concat (take pos bs)" and ?B = "concat (drop (Suc pos) bs)"
  have split: "concat bs = ?A @ bs ! pos @ ?B" by (rule concat_split_at [OF assms(1)])
  have "distinct (?A @ bs ! pos @ ?B)" using assms(2) split by simp
  moreover have "x \<notin> set (?A @ bs ! pos @ ?B)" using assms(3) split by simp
  ultimately have "distinct (?A @ c @ ?B)" using assms(4,5) by auto
  then show ?thesis by (simp add: concat_update [OF assms(1)])
qed

lemma set_concat_update_remove1:
  assumes "pos < length bs" and "distinct (concat bs)" and "y \<in> set (bs ! pos)"
  shows "set (concat (bs[pos := remove1 y (bs ! pos)])) = set (concat bs) - {y}"
proof -
  let ?A = "concat (take pos bs)" and ?B = "concat (drop (Suc pos) bs)"
  have split: "concat bs = ?A @ bs ! pos @ ?B" by (rule concat_split_at [OF assms(1)])
  have d: "distinct (?A @ bs ! pos @ ?B)" using assms(2) split by simp
  have "set (?A @ remove1 y (bs ! pos) @ ?B) = set (?A @ bs ! pos @ ?B) - {y}"
    using d assms(3) by auto
  then show ?thesis using split by (simp del: set_concat set_append add: concat_update [OF assms(1)])
qed

lemma length_concat_update_remove1:
  assumes pos: "pos < length bs" and y: "y \<in> set (bs ! pos)"
  shows "length (concat (bs[pos := remove1 y (bs ! pos)])) = length (concat bs) - 1"
proof -
  have "0 < length (bs ! pos)" using y by (cases "bs ! pos") auto
  then have "length (remove1 y (bs ! pos)) + 1 = length (bs ! pos)"
    using y by (simp add: length_remove1)
  then show ?thesis
    using concat_split_at [OF pos] concat_update [OF pos, of "remove1 y (bs ! pos)"] by simp
qed

lemma distinct_concat_update_remove1:
  assumes "pos < length bs" and "distinct (concat bs)"
  shows "distinct (concat (bs[pos := remove1 y (bs ! pos)]))"
proof -
  let ?A = "concat (take pos bs)" and ?B = "concat (drop (Suc pos) bs)"
  have split: "concat bs = ?A @ bs ! pos @ ?B" by (rule concat_split_at [OF assms(1)])
  have "distinct (?A @ bs ! pos @ ?B)" using assms(2) split by simp
  then have "distinct (?A @ remove1 y (bs ! pos) @ ?B)" by auto
  then show ?thesis by (simp add: concat_update [OF assms(1)])
qed

lemma buckets_invI:
  assumes "length bs = nb" "0 < nb"
    and "\<And>i z. i < length bs \<Longrightarrow> z \<in> set (bs ! i) \<Longrightarrow>
            \<exists>dz. deref z = Some dz \<and> hashD dz AND (nb - 1) = i"
    and "distinct (concat bs)"
    and "\<And>a b da db. a \<in> set (concat bs) \<Longrightarrow> b \<in> set (concat bs) \<Longrightarrow>
            deref a = Some da \<Longrightarrow> deref b = Some db \<Longrightarrow> eqD da db \<Longrightarrow> a = b"
    and "sz = length (concat bs)"
  shows "buckets_inv hashD eqD deref nb bs sz"
  unfolding buckets_inv_def using assms by blast

lemma buckets_inv_length: "buckets_inv hashD eqD deref nb bs sz \<Longrightarrow> length bs = nb"
  by (simp add: buckets_inv_def)

lemma buckets_inv_pos: "buckets_inv hashD eqD deref nb bs sz \<Longrightarrow> 0 < nb"
  by (simp add: buckets_inv_def)

lemma buckets_inv_index:
  "buckets_inv hashD eqD deref nb bs sz \<Longrightarrow> i < length bs \<Longrightarrow> z \<in> set (bs ! i) \<Longrightarrow>
     \<exists>dz. deref z = Some dz \<and> hashD dz AND (nb - 1) = i"
  unfolding buckets_inv_def by blast

lemma buckets_inv_distinct: "buckets_inv hashD eqD deref nb bs sz \<Longrightarrow> distinct (concat bs)"
  by (simp add: buckets_inv_def)

lemma buckets_inv_unique:
  "buckets_inv hashD eqD deref nb bs sz \<Longrightarrow> a \<in> set (concat bs) \<Longrightarrow> b \<in> set (concat bs) \<Longrightarrow>
     deref a = Some da \<Longrightarrow> deref b = Some db \<Longrightarrow> eqD da db \<Longrightarrow> a = b"
  unfolding buckets_inv_def by blast

lemma buckets_inv_size: "buckets_inv hashD eqD deref nb bs sz \<Longrightarrow> sz = length (concat bs)"
  by (simp add: buckets_inv_def)

lemma buckets_inv_live:
  "buckets_inv hashD eqD deref nb bs sz \<Longrightarrow> z \<in> set (concat bs) \<Longrightarrow> \<exists>dz. deref z = Some dz"
  using buckets_inv_index [of hashD eqD deref nb bs sz] in_concat_nth [of z bs] by blast

lemma buckets_inv_add:
  assumes inv: "buckets_inv hashD eqD deref nb bs sz"
    and con: "hash_eq_contract hashD eqD"
    and x: "deref x = Some d"
    and none: "\<forall>y\<in>set (concat bs). \<forall>dy. deref y = Some dy \<longrightarrow> \<not> eqD d dy"
    and c: "set c = insert x (set (bs ! (hashD d AND (nb - 1))))" "distinct c"
           "length c = Suc (length (bs ! (hashD d AND (nb - 1))))"
  shows "buckets_inv hashD eqD deref nb (bs[hashD d AND (nb - 1) := c]) (sz + 1)"
proof -
  define pos where "pos = hashD d AND (nb - 1)"
  note len = buckets_inv_length [OF inv] and nb = buckets_inv_pos [OF inv]
    and idx = buckets_inv_index [OF inv] and dist = buckets_inv_distinct [OF inv]
    and uniq = buckets_inv_unique [OF inv] and sz = buckets_inv_size [OF inv]
  have refl: "\<And>a. eqD a a" using con unfolding hash_eq_contract_def by blast
  have sym: "\<And>a b. eqD a b \<Longrightarrow> eqD b a" using con unfolding hash_eq_contract_def by blast
  have pos: "pos < length bs" using and_mask_less [OF nb] len by (simp add: pos_def)
  have c': "set c = insert x (set (bs ! pos))" "length c = Suc (length (bs ! pos))"
    using c by (simp_all add: pos_def)
  have xnew: "x \<notin> set (concat bs)" using none x refl by blast
  have elems: "set (concat (bs[pos := c])) = insert x (set (concat bs))"
    by (rule set_concat_update_add [OF pos c'(1)])
  have idx': "\<exists>dz. deref z = Some dz \<and> hashD dz AND (nb - 1) = i"
    if "i < length (bs[pos := c])" "z \<in> set (bs[pos := c] ! i)" for i z
  proof (cases "i = pos")
    case True
    with that pos c'(1) have "z = x \<or> z \<in> set (bs ! pos)" by simp
    then show ?thesis using x idx [OF pos] True by (auto simp: pos_def)
  next
    case False
    with that show ?thesis using idx [of i z] by simp
  qed
  have uniq': "a = b"
    if "a \<in> set (concat (bs[pos := c]))" "b \<in> set (concat (bs[pos := c]))"
       "deref a = Some da" "deref b = Some db" "eqD da db" for a b da db
  proof -
    from that(1,2) have ab: "a = x \<or> a \<in> set (concat bs)" "b = x \<or> b \<in> set (concat bs)"
      unfolding elems by simp_all
    show ?thesis
    proof (cases "a = x")
      case True
      show ?thesis
      proof (cases "b = x")
        case True
        with \<open>a = x\<close> show ?thesis by simp
      next
        case False
        with ab have "b \<in> set (concat bs)" by simp
        with none that True x show ?thesis by auto
      qed
    next
      case False
      with ab have a: "a \<in> set (concat bs)" by simp
      show ?thesis
      proof (cases "b = x")
        case True
        with that x have "eqD d da" using sym by auto
        with none a that show ?thesis by auto
      next
        case False
        with ab have "b \<in> set (concat bs)" by simp
        with a that uniq show ?thesis by blast
      qed
    qed
  qed
  have "buckets_inv hashD eqD deref nb (bs[pos := c]) (sz + 1)"
  proof (rule buckets_invI)
    show "length (bs[pos := c]) = nb" using len by simp
    show "0 < nb" by (rule nb)
    show "distinct (concat (bs[pos := c]))"
      using pos dist xnew c(2) c'(1) by (rule distinct_concat_update_add)
    show "sz + 1 = length (concat (bs[pos := c]))"
      using sz length_concat_update_add [OF pos c'(2)] by simp
  qed (use idx' uniq' in blast)+
  then show ?thesis by (simp add: pos_def)
qed

lemma probe_chain:
  assumes inv: "buckets_inv hashD eqD deref nb bs sz"
    and compat: "\<And>dz. eq dz \<Longrightarrow> hashD dz AND (nb - 1) = pos"
    and pos: "pos < length bs"
  shows "chain_find deref eq (bs ! pos) = Inr (find (\<lambda>z. \<exists>dz. deref z = Some dz \<and> eq dz) (bs ! pos))"
    and "z \<in> set (concat bs) \<Longrightarrow> deref z = Some dz \<Longrightarrow> eq dz \<Longrightarrow> z \<in> set (bs ! pos)"
proof -
  note idx = buckets_inv_index [OF inv]
  have live: "\<forall>z\<in>set (bs ! pos). deref z \<noteq> None" using idx [OF pos] by fastforce
  show "chain_find deref eq (bs ! pos) = Inr (find (\<lambda>z. \<exists>dz. deref z = Some dz \<and> eq dz) (bs ! pos))"
    by (rule chain_find_live [OF live])
  assume z: "z \<in> set (concat bs)" "deref z = Some dz" "eq dz"
  from z(1) in_concat_nth [of z bs] obtain i where i: "i < length bs" "z \<in> set (bs ! i)"
    by blast
  from idx [OF i] z(2) have "hashD dz AND (nb - 1) = i" by auto
  with compat [OF z(3)] have "i = pos" by simp
  with i show "z \<in> set (bs ! pos)" by simp
qed

lemma insert_impl_cases:
  assumes inv: "buckets_inv hashD eqD deref nb bs sz"
    and con: "hash_eq_contract hashD eqD"
    and x: "deref x = Some d"
  shows "(\<exists>y dy. y \<in> set (concat bs) \<and> deref y = Some dy \<and> eqD d dy \<and>
            insert_impl hashD eqD deref x bs nb sz = Inr ((y, False), bs, sz)) \<or>
         ((\<forall>y\<in>set (concat bs). \<forall>dy. deref y = Some dy \<longrightarrow> \<not> eqD d dy) \<and>
          insert_impl hashD eqD deref x bs nb sz =
            Inr ((x, True), bs[hashD d AND (nb - 1) := x # bs ! (hashD d AND (nb - 1))], sz + 1) \<and>
          buckets_inv hashD eqD deref nb
            (bs[hashD d AND (nb - 1) := x # bs ! (hashD d AND (nb - 1))]) (sz + 1))"
proof -
  define pos where "pos = hashD d AND (nb - 1)"
  define P where "P = (\<lambda>z. \<exists>dz. deref z = Some dz \<and> eqD d dz)"
  note len = buckets_inv_length [OF inv] and nb = buckets_inv_pos [OF inv]
  have refl: "\<And>a. eqD a a" using con unfolding hash_eq_contract_def by blast
  have hash: "\<And>a b. eqD a b \<Longrightarrow> hashD a = hashD b"
    using con unfolding hash_eq_contract_def by blast
  have pos: "pos < length bs" using and_mask_less [OF nb] len by (simp add: pos_def)
  have compat: "\<And>dz. eqD d dz \<Longrightarrow> hashD dz AND (nb - 1) = pos"
    using hash by (auto simp: pos_def)
  have cf: "chain_find deref (eqD d) (bs ! pos) = Inr (find P (bs ! pos))"
    unfolding P_def by (rule probe_chain(1) [OF inv compat pos])
  have in_pos: "z \<in> set (bs ! pos)" if "z \<in> set (concat bs)" "deref z = Some dz" "eqD d dz" for z dz
    using probe_chain(2) [OF inv compat pos] that by blast
  show ?thesis
  proof (cases "find P (bs ! pos)")
    case (Some y)
    then have yin: "y \<in> set (bs ! pos)" and "P y"
      by (auto simp: find_Some_iff)
    then obtain dy where dy: "deref y = Some dy" "eqD d dy" by (auto simp: P_def)
    have "y \<in> set (concat bs)" using yin pos in_concat_nth [of y bs] by blast
    moreover have "insert_impl hashD eqD deref x bs nb sz = Inr ((y, False), bs, sz)"
      using x pos cf Some by (simp add: insert_impl_def pos_def Let_def)
    ultimately show ?thesis using dy by blast
  next
    case None
    then have none_pos: "\<And>z. z \<in> set (bs ! pos) \<Longrightarrow> \<not> P z"
      by (auto simp: find_None_iff)
    have none: "\<forall>y\<in>set (concat bs). \<forall>dy. deref y = Some dy \<longrightarrow> \<not> eqD d dy"
    proof (intro ballI allI impI notI)
      fix y dy assume "y \<in> set (concat bs)" "deref y = Some dy" "eqD d dy"
      then have "y \<in> set (bs ! pos)" "P y" using in_pos by (auto simp: P_def)
      with none_pos show False by blast
    qed
    have xnew: "x \<notin> set (concat bs)" using none x refl by blast
    have xpos: "x \<notin> set (bs ! pos)" using xnew pos in_concat_nth [of x bs] by blast
    have dpos: "distinct (bs ! pos)"
      using buckets_inv_distinct [OF inv] concat_split_at [OF pos] by (metis distinct_append)
    have res: "insert_impl hashD eqD deref x bs nb sz =
                 Inr ((x, True), bs[pos := x # bs ! pos], sz + 1)"
      using x pos cf None by (simp add: insert_impl_def pos_def Let_def)
    have "buckets_inv hashD eqD deref nb (bs[pos := x # bs ! pos]) (sz + 1)"
      unfolding pos_def
      by (rule buckets_inv_add [OF inv con x none]) (use xpos dpos in \<open>simp_all add: pos_def\<close>)
    with none res show ?thesis unfolding pos_def by blast
  qed
qed

lemma buckets_inv_cong:
  assumes "buckets_inv hashD eqD deref nb bs sz"
    and "\<And>z. z \<in> set (concat bs) \<Longrightarrow> deref' z = deref z"
  shows "buckets_inv hashD eqD deref' nb bs sz"
proof (rule buckets_invI)
  fix i z assume iz: "i < length bs" "z \<in> set (bs ! i)"
  then have "z \<in> set (concat bs)" using in_concat_nth [of z bs] by blast
  with assms(2) buckets_inv_index [OF assms(1) iz]
  show "\<exists>dz. deref' z = Some dz \<and> hashD dz AND (nb - 1) = i" by simp
next
  fix a b da db
  assume "a \<in> set (concat bs)" "b \<in> set (concat bs)" "deref' a = Some da" "deref' b = Some db"
    "eqD da db"
  then show "a = b" using assms(2) buckets_inv_unique [OF assms(1), of a b da db] by simp
qed (use assms(1) in \<open>simp_all add: buckets_inv_def\<close>)


lemma reinsert_ok:
  assumes con: "hash_eq_contract hashD eqD"
  shows "buckets_inv hashD eqD deref nb bs sz \<Longrightarrow> distinct xs \<Longrightarrow>
         (\<forall>x\<in>set xs. \<exists>d. deref x = Some d) \<Longrightarrow>
         (\<forall>x\<in>set xs. \<forall>y\<in>set xs \<union> set (concat bs). \<forall>dx dy.
             deref x = Some dx \<longrightarrow> deref y = Some dy \<longrightarrow> eqD dx dy \<longrightarrow> x = y) \<Longrightarrow>
         set xs \<inter> set (concat bs) = {} \<Longrightarrow>
         \<exists>bs'. reinsert hashD eqD deref nb xs (bs, sz) = Inr (bs', sz + length xs) \<and>
               buckets_inv hashD eqD deref nb bs' (sz + length xs) \<and>
               set (concat bs') = set xs \<union> set (concat bs)"
proof (induction xs arbitrary: bs sz)
  case Nil
  then show ?case by simp
next
  case (Cons x xs)
  from Cons.prems(3) obtain d where d: "deref x = Some d" by auto
  have none: "\<forall>y\<in>set (concat bs). \<forall>dy. deref y = Some dy \<longrightarrow> \<not> eqD d dy"
  proof (intro ballI allI impI notI)
    fix y dy assume y: "y \<in> set (concat bs)" "deref y = Some dy" "eqD d dy"
    with Cons.prems(4) d have "x = y" by auto
    with y(1) Cons.prems(5) show False by auto
  qed
  define pos where "pos = hashD d AND (nb - 1)"
  from insert_impl_cases [OF Cons.prems(1) con d] none
  have step: "insert_impl hashD eqD deref x bs nb sz = Inr ((x, True), bs[pos := x # bs ! pos], sz + 1)"
    and inv': "buckets_inv hashD eqD deref nb (bs[pos := x # bs ! pos]) (sz + 1)"
    unfolding pos_def by blast+
  have posl: "pos < length bs"
    using and_mask_less [OF buckets_inv_pos [OF Cons.prems(1)]] buckets_inv_length [OF Cons.prems(1)]
    by (simp add: pos_def)
  have elems: "set (concat (bs[pos := x # bs ! pos])) = insert x (set (concat bs))"
    by (rule set_concat_update_add [OF posl]) simp
  have "\<exists>bs'. reinsert hashD eqD deref nb xs (bs[pos := x # bs ! pos], sz + 1) =
                 Inr (bs', sz + 1 + length xs) \<and>
               buckets_inv hashD eqD deref nb bs' (sz + 1 + length xs) \<and>
               set (concat bs') = set xs \<union> set (concat (bs[pos := x # bs ! pos]))"
  proof (rule Cons.IH [OF inv'])
    show "distinct xs" using Cons.prems(2) by simp
    show "\<forall>x\<in>set xs. \<exists>d. deref x = Some d" using Cons.prems(3) by simp
    show "\<forall>a\<in>set xs. \<forall>y\<in>set xs \<union> set (concat (bs[pos := x # bs ! pos])). \<forall>dx dy.
             deref a = Some dx \<longrightarrow> deref y = Some dy \<longrightarrow> eqD dx dy \<longrightarrow> a = y"
      unfolding elems using Cons.prems(4) by (simp del: set_concat)
    show "set xs \<inter> set (concat (bs[pos := x # bs ! pos])) = {}"
      unfolding elems using Cons.prems(2,5) by (simp del: set_concat)
  qed
  then obtain bs' where
    "reinsert hashD eqD deref nb xs (bs[pos := x # bs ! pos], sz + 1) = Inr (bs', sz + 1 + length xs)"
    "buckets_inv hashD eqD deref nb bs' (sz + 1 + length xs)"
    "set (concat bs') = set xs \<union> set (concat (bs[pos := x # bs ! pos]))" by blast
  then show ?case using step elems by (simp del: set_concat)
qed

lemma buckets_inv_empty: "0 < nb \<Longrightarrow> buckets_inv hashD eqD deref nb (replicate nb []) 0"
  by (rule buckets_invI) simp_all

lemma rehash_ok:
  assumes con: "hash_eq_contract hashD eqD"
    and inv: "table_inv hashD eqD deref t"
  shows "\<exists>t'. rehash hashD eqD deref t = Inr t' \<and> table_inv hashD eqD deref t' \<and>
              set (elements t') = set (elements t) \<and> m_size t' = m_size t \<and>
              m_max_load_factor t' = m_max_load_factor t \<and>
              (if load_factor t < m_max_load_factor t
               then t' = t
               else m_nb_buckets t' = 2 * m_nb_buckets t \<and> m_nb_rehash t' = m_nb_rehash t + 1)"
proof (cases "load_factor t < m_max_load_factor t")
  case True
  then show ?thesis using inv by (simp add: rehash_def)
next
  case False
  from inv have binv: "buckets_inv hashD eqD deref (m_nb_buckets t) (m_buckets t) (m_size t)"
    by (simp add: table_inv_def)
  let ?nb = "m_nb_buckets t * 2"
  let ?xs = "concat (take (m_nb_buckets t) (m_buckets t))"
  have xs: "?xs = concat (m_buckets t)" using buckets_inv_length [OF binv] by simp
  have nb: "0 < ?nb" using buckets_inv_pos [OF binv] by simp
  have "\<exists>bs'. reinsert hashD eqD deref ?nb ?xs (replicate ?nb [], 0) = Inr (bs', 0 + length ?xs) \<and>
               buckets_inv hashD eqD deref ?nb bs' (0 + length ?xs) \<and>
               set (concat bs') = set ?xs \<union> set (concat (replicate ?nb []))"
  proof (rule reinsert_ok [OF con buckets_inv_empty [OF nb]])
    show "distinct ?xs" unfolding xs by (rule buckets_inv_distinct [OF binv])
    show "\<forall>x\<in>set ?xs. \<exists>d. deref x = Some d"
      unfolding xs using buckets_inv_live [OF binv] by blast
    show "\<forall>x\<in>set ?xs. \<forall>y\<in>set ?xs \<union> set (concat (replicate ?nb [])). \<forall>dx dy.
            deref x = Some dx \<longrightarrow> deref y = Some dy \<longrightarrow> eqD dx dy \<longrightarrow> x = y"
      unfolding xs using buckets_inv_unique [OF binv] by (simp del: set_concat)
    show "set ?xs \<inter> set (concat (replicate ?nb [])) = {}" by simp
  qed
  then obtain bs' where bs':
    "reinsert hashD eqD deref ?nb ?xs (replicate ?nb [], 0) = Inr (bs', length ?xs)"
    "buckets_inv hashD eqD deref ?nb bs' (length ?xs)"
    "set (concat bs') = set ?xs" by auto
  have sz: "length ?xs = m_size t" unfolding xs using buckets_inv_size [OF binv] by simp
  show ?thesis
    using False bs' sz xs
    by (simp add: rehash_def Let_def table_inv_def elements_def mult.commute del: set_concat)
qed

lemma insert_ht_ok:
  assumes con: "hash_eq_contract hashD eqD"
    and inv: "table_inv hashD eqD deref t"
    and x: "deref x = Some d"
  shows "\<exists>first second t1 t'.
           insert_impl hashD eqD deref x (m_buckets t) (m_nb_buckets t) (m_size t) =
             Inr ((first, second), m_buckets t1, m_size t1) \<and>
           t1 = t \<lparr> m_buckets := m_buckets t1, m_size := m_size t1 \<rparr> \<and>
           insert_ht hashD eqD deref x t = Inr ((first, second), t') \<and>
           rehash hashD eqD deref t1 = Inr t' \<and>
           table_inv hashD eqD deref t1 \<and> table_inv hashD eqD deref t' \<and>
           set (elements t') = set (elements t1) \<and> m_size t' = m_size t1 \<and>
           (if second
            then first = x \<and> x \<notin> set (elements t) \<and>
                 (\<forall>y\<in>set (elements t). \<forall>dy. deref y = Some dy \<longrightarrow> \<not> eqD d dy) \<and>
                 set (elements t1) = insert x (set (elements t)) \<and> m_size t1 = m_size t + 1
            else first \<in> set (elements t) \<and> (\<exists>dy. deref first = Some dy \<and> eqD d dy) \<and>
                 t1 = t)"
proof -
  from inv have binv: "buckets_inv hashD eqD deref (m_nb_buckets t) (m_buckets t) (m_size t)"
    by (simp add: table_inv_def)
  have refl: "\<And>a. eqD a a" using con unfolding hash_eq_contract_def by blast
  define pos where "pos = hashD d AND (m_nb_buckets t - 1)"
  have posl: "pos < length (m_buckets t)"
    using and_mask_less [OF buckets_inv_pos [OF binv]] buckets_inv_length [OF binv]
    by (simp add: pos_def)
  from insert_impl_cases [OF binv con x]
  consider (found) y dy where "y \<in> set (concat (m_buckets t))" "deref y = Some dy" "eqD d dy"
      "insert_impl hashD eqD deref x (m_buckets t) (m_nb_buckets t) (m_size t) =
         Inr ((y, False), m_buckets t, m_size t)"
    | (new) "\<forall>y\<in>set (concat (m_buckets t)). \<forall>dy. deref y = Some dy \<longrightarrow> \<not> eqD d dy"
      "insert_impl hashD eqD deref x (m_buckets t) (m_nb_buckets t) (m_size t) =
         Inr ((x, True), (m_buckets t)[pos := x # m_buckets t ! pos], m_size t + 1)"
      "buckets_inv hashD eqD deref (m_nb_buckets t)
         ((m_buckets t)[pos := x # m_buckets t ! pos]) (m_size t + 1)"
    unfolding pos_def by blast
  then show ?thesis
  proof cases
    case found
    from rehash_ok [OF con inv] obtain t' where t':
      "rehash hashD eqD deref t = Inr t'" "table_inv hashD eqD deref t'"
      "set (elements t') = set (elements t)" "m_size t' = m_size t" by blast
    show ?thesis
      apply (rule exI [of _ y], rule exI [of _ False], rule exI [of _ t], rule exI [of _ t'])
      using found t' inv by (simp add: insert_ht_def elements_def del: set_concat)
  next
    case new
    let ?t1 = "t \<lparr> m_buckets := (m_buckets t)[pos := x # m_buckets t ! pos], m_size := m_size t + 1 \<rparr>"
    have inv1: "table_inv hashD eqD deref ?t1" using new(3) by (simp add: table_inv_def)
    from rehash_ok [OF con inv1] obtain t' where t':
      "rehash hashD eqD deref ?t1 = Inr t'" "table_inv hashD eqD deref t'"
      "set (elements t') = set (elements ?t1)" "m_size t' = m_size ?t1" by blast
    have xnew: "x \<notin> set (concat (m_buckets t))" using new(1) x refl by blast
    have elems: "set (concat ((m_buckets t)[pos := x # m_buckets t ! pos])) =
                   insert x (set (concat (m_buckets t)))"
      by (rule set_concat_update_add [OF posl]) simp
    show ?thesis
      apply (rule exI [of _ x], rule exI [of _ True], rule exI [of _ ?t1], rule exI [of _ t'])
      using new t' inv1 xnew elems by (simp add: insert_ht_def elements_def del: set_concat)
  qed
qed


lemma buckets_inv_remove:
  assumes inv: "buckets_inv hashD eqD deref nb bs sz"
    and pos: "pos < length bs" and x: "x \<in> set (bs ! pos)"
  shows "buckets_inv hashD eqD deref nb (bs[pos := remove1 x (bs ! pos)]) (sz - 1)"
proof (rule buckets_invI)
  note dist = buckets_inv_distinct [OF inv]
  have elems: "set (concat (bs[pos := remove1 x (bs ! pos)])) = set (concat bs) - {x}"
    by (rule set_concat_update_remove1 [OF pos dist x])
  show "length (bs[pos := remove1 x (bs ! pos)]) = nb" using buckets_inv_length [OF inv] by simp
  show "0 < nb" by (rule buckets_inv_pos [OF inv])
  show "distinct (concat (bs[pos := remove1 x (bs ! pos)]))"
    by (rule distinct_concat_update_remove1 [OF pos dist])
  show "sz - 1 = length (concat (bs[pos := remove1 x (bs ! pos)]))"
    using buckets_inv_size [OF inv] length_concat_update_remove1 [OF pos x] by simp
  show "\<exists>dz. deref z = Some dz \<and> hashD dz AND (nb - 1) = i"
    if "i < length (bs[pos := remove1 x (bs ! pos)])" "z \<in> set (bs[pos := remove1 x (bs ! pos)] ! i)"
    for i z
  proof -
    from that(1) have i: "i < length bs" by simp
    have "z \<in> set (bs ! i)"
    proof (cases "i = pos")
      case True
      with that(2) pos have "z \<in> set (remove1 x (bs ! pos))" by simp
      then show ?thesis using True set_remove1_subset [of x "bs ! pos"] by blast
    next
      case False
      with that(2) show ?thesis by simp
    qed
    with i show ?thesis by (rule buckets_inv_index [OF inv])
  qed
  show "a = b"
    if "a \<in> set (concat (bs[pos := remove1 x (bs ! pos)]))"
       "b \<in> set (concat (bs[pos := remove1 x (bs ! pos)]))"
       "deref a = Some da" "deref b = Some db" "eqD da db" for a b da db
    using that buckets_inv_unique [OF inv, of a b da db] unfolding elems by blast
qed

lemma erase_ok:
  assumes con: "hash_eq_contract hashD eqD"
    and inv: "table_inv hashD eqD deref t"
    and x: "x \<in> set (elements t)"
  shows "\<exists>t'. erase hashD eqD deref x t = Inr t' \<and> table_inv hashD eqD deref t' \<and>
              set (elements t') = set (elements t) - {x} \<and> m_size t' + 1 = m_size t \<and>
              m_nb_buckets t' = m_nb_buckets t \<and> length (m_buckets t') = length (m_buckets t)"
proof -
  from inv have binv: "buckets_inv hashD eqD deref (m_nb_buckets t) (m_buckets t) (m_size t)"
    by (simp add: table_inv_def)
  have xin: "x \<in> set (concat (m_buckets t))" using x by (simp add: elements_def)
  from buckets_inv_live [OF binv xin] obtain d where d: "deref x = Some d" by blast
  have refl: "\<And>a. eqD a a" using con unfolding hash_eq_contract_def by blast
  have hash: "\<And>a b. eqD a b \<Longrightarrow> hashD a = hashD b"
    using con unfolding hash_eq_contract_def by blast
  define pos where "pos = hashD d AND (m_nb_buckets t - 1)"
  define P where "P = (\<lambda>z. \<exists>dz. deref z = Some dz \<and> eqD d dz)"
  have pos: "pos < length (m_buckets t)"
    using and_mask_less [OF buckets_inv_pos [OF binv]] buckets_inv_length [OF binv]
    by (simp add: pos_def)
  have compat: "\<And>dz. eqD d dz \<Longrightarrow> hashD dz AND (m_nb_buckets t - 1) = pos"
    using hash by (auto simp: pos_def)
  have xpos: "x \<in> set (m_buckets t ! pos)"
    using probe_chain(2) [OF binv compat pos xin d] refl [of d] by simp
  have live: "\<forall>z\<in>set (m_buckets t ! pos). deref z \<noteq> None"
    using buckets_inv_index [OF binv pos] by fastforce
  have "P x" using d refl by (auto simp: P_def)
  with xpos obtain y where y: "find P (m_buckets t ! pos) = Some y"
    by (cases "find P (m_buckets t ! pos)") (auto simp: find_None_iff)
  then have "y \<in> set (m_buckets t ! pos)" "P y" by (auto simp: find_Some_iff)
  then obtain dy where dy: "deref y = Some dy" "eqD d dy" and yin: "y \<in> set (concat (m_buckets t))"
    using pos in_concat_nth [of y "m_buckets t"] by (auto simp: P_def)
  have "x = y" by (rule buckets_inv_unique [OF binv xin yin d dy])
  with y have ce: "chain_erase deref (eqD d) (m_buckets t ! pos) =
                     Inr (Some (remove1 x (m_buckets t ! pos)))"
    using chain_erase_live [OF live, of "eqD d"] by (simp add: P_def)
  let ?t' = "t \<lparr> m_buckets := (m_buckets t)[pos := remove1 x (m_buckets t ! pos)],
                 m_size := m_size t - 1 \<rparr>"
  have res: "erase hashD eqD deref x t = Inr ?t'"
    using d pos ce by (simp add: erase_def Let_def pos_def)
  have inv': "table_inv hashD eqD deref ?t'"
    using buckets_inv_remove [OF binv pos xpos] by (simp add: table_inv_def)
  have elems: "set (elements ?t') = set (elements t) - {x}"
    using set_concat_update_remove1 [OF pos buckets_inv_distinct [OF binv] xpos]
    by (simp add: elements_def del: set_concat)
  have "0 < m_size t"
    using buckets_inv_size [OF binv] xin by (cases "concat (m_buckets t)") auto
  then show ?thesis using res inv' elems by (simp del: set_concat)
qed

lemma insert_check_ok:
  assumes inv: "table_inv hashD eqD deref t"
    and compat: "\<And>dz. eq dz \<Longrightarrow> hashD dz = hx"
  shows "\<exists>r. insert_check hx eq deref t = Inr (r, hx AND (m_nb_buckets t - 1)) \<and>
             hx AND (m_nb_buckets t - 1) < length (m_buckets t) \<and>
             (case r of
                None \<Rightarrow> \<forall>y\<in>set (elements t). \<forall>dy. deref y = Some dy \<longrightarrow> \<not> eq dy
              | Some y \<Rightarrow> y \<in> set (elements t) \<and> (\<exists>dy. deref y = Some dy \<and> eq dy))"
proof -
  from inv have binv: "buckets_inv hashD eqD deref (m_nb_buckets t) (m_buckets t) (m_size t)"
    by (simp add: table_inv_def)
  define pos where "pos = hx AND (m_nb_buckets t - 1)"
  define P where "P = (\<lambda>z. \<exists>dz. deref z = Some dz \<and> eq dz)"
  have pos: "pos < length (m_buckets t)"
    using and_mask_less [OF buckets_inv_pos [OF binv]] buckets_inv_length [OF binv]
    by (simp add: pos_def)
  have compat': "\<And>dz. eq dz \<Longrightarrow> hashD dz AND (m_nb_buckets t - 1) = pos"
    using compat by (simp add: pos_def)
  have cf: "chain_find deref eq (m_buckets t ! pos) = Inr (find P (m_buckets t ! pos))"
    unfolding P_def by (rule probe_chain(1) [OF binv compat' pos])
  have res: "insert_check hx eq deref t = Inr (find P (m_buckets t ! pos), pos)"
    using pos cf by (simp add: insert_check_def Let_def pos_def)
  have "case find P (m_buckets t ! pos) of
          None \<Rightarrow> \<forall>y\<in>set (elements t). \<forall>dy. deref y = Some dy \<longrightarrow> \<not> eq dy
        | Some y \<Rightarrow> y \<in> set (elements t) \<and> (\<exists>dy. deref y = Some dy \<and> eq dy)"
  proof (cases "find P (m_buckets t ! pos)")
    case None
    then have none_pos: "\<And>z. z \<in> set (m_buckets t ! pos) \<Longrightarrow> \<not> P z"
      by (auto simp: find_None_iff)
    have "\<forall>y\<in>set (elements t). \<forall>dy. deref y = Some dy \<longrightarrow> \<not> eq dy"
    proof (intro ballI allI impI notI)
      fix y dy assume y: "y \<in> set (elements t)" "deref y = Some dy" "eq dy"
      then have "y \<in> set (m_buckets t ! pos)"
        using probe_chain(2) [OF binv compat' pos, where z = y and dz = dy]
        by (simp add: elements_def)
      moreover have "P y" using y by (auto simp: P_def)
      ultimately show False using none_pos by blast
    qed
    with None show ?thesis by simp
  next
    case (Some y)
    then have "y \<in> set (m_buckets t ! pos)" "P y" by (auto simp: find_Some_iff)
    then have "y \<in> set (elements t)" "\<exists>dy. deref y = Some dy \<and> eq dy"
      using pos in_concat_nth [of y "m_buckets t"] by (auto simp: P_def elements_def)
    with Some show ?thesis by simp
  qed
  with res pos show ?thesis unfolding pos_def by blast
qed

lemma insert_commit_ok:
  assumes con: "hash_eq_contract hashD eqD"
    and inv: "table_inv hashD eqD deref t"
    and x: "deref x = Some d"
    and none: "\<forall>y\<in>set (elements t). \<forall>dy. deref y = Some dy \<longrightarrow> \<not> eqD d dy"
  shows "table_inv hashD eqD deref (insert_commit x (hashD d AND (m_nb_buckets t - 1)) t) \<and>
         set (elements (insert_commit x (hashD d AND (m_nb_buckets t - 1)) t)) =
           insert x (set (elements t)) \<and>
         m_size (insert_commit x (hashD d AND (m_nb_buckets t - 1)) t) = m_size t + 1"
proof -
  from inv have binv: "buckets_inv hashD eqD deref (m_nb_buckets t) (m_buckets t) (m_size t)"
    by (simp add: table_inv_def)
  have refl: "\<And>a. eqD a a" using con unfolding hash_eq_contract_def by blast
  define pos where "pos = hashD d AND (m_nb_buckets t - 1)"
  have pos: "pos < length (m_buckets t)"
    using and_mask_less [OF buckets_inv_pos [OF binv]] buckets_inv_length [OF binv]
    by (simp add: pos_def)
  have none': "\<forall>y\<in>set (concat (m_buckets t)). \<forall>dy. deref y = Some dy \<longrightarrow> \<not> eqD d dy"
    using none by (simp add: elements_def)
  have xnew: "x \<notin> set (concat (m_buckets t))" using none' x refl by blast
  have xpos: "x \<notin> set (m_buckets t ! pos)" using xnew pos in_concat_nth [of x "m_buckets t"] by blast
  have dpos: "distinct (m_buckets t ! pos)"
    using buckets_inv_distinct [OF binv] concat_split_at [OF pos] by (metis distinct_append)
  have "buckets_inv hashD eqD deref (m_nb_buckets t)
          ((m_buckets t)[pos := m_buckets t ! pos @ [x]]) (m_size t + 1)"
    unfolding pos_def
    by (rule buckets_inv_add [OF binv con x none']) (use xpos dpos in \<open>simp_all add: pos_def\<close>)
  moreover have "set (concat ((m_buckets t)[pos := m_buckets t ! pos @ [x]])) =
                   insert x (set (concat (m_buckets t)))"
    by (rule set_concat_update_add [OF pos]) simp
  ultimately show ?thesis
    by (simp add: insert_commit_def table_inv_def elements_def pos_def del: set_concat)
qed

lemma unique_contract: "hash_eq_contract (hash_unique h) eq_unique"
  by (simp add: hash_eq_contract_def hash_unique_def eq_unique_def)


section \<open>A lookup keeps the invariant of the cache\<close>

lemma cache_entry_contract: "hash_eq_contract (hash_cache_entry h) eq_cache_entry"
  by (simp add: hash_eq_contract_def hash_cache_entry_def eq_cache_entry_def seed_def)

lemma cache_inv_table: "cache_inv h c \<Longrightarrow> table_inv (hash_cache_entry h) eq_cache_entry (entries c) (m_set c)"
  by (simp add: cache_inv_def)

lemma cache_inv_live: "cache_inv h c \<Longrightarrow> entries c p \<noteq> None \<longleftrightarrow> p \<in> set (elements (m_set c))"
  unfolding cache_inv_def by blast

lemma cache_inv_chained:
  "cache_inv h c \<Longrightarrow> entries c p = Some e \<Longrightarrow> p \<in> set (elements (m_set c))"
  using cache_inv_live [of h c p] by simp

lemma cache_inv_constructed:
  "cache_inv h c \<Longrightarrow> p \<in> set (elements (m_set c)) \<Longrightarrow> \<exists>e. entries c p = Some e"
  using cache_inv_live [of h c p] by auto

lemma cache_inv_pool_distinct: "cache_inv h c \<Longrightarrow> distinct (m_pool c)"
  by (simp add: cache_inv_def)

lemma cache_inv_pool_disjoint: "cache_inv h c \<Longrightarrow> set (m_pool c) \<inter> set (elements (m_set c)) = {}"
  unfolding cache_inv_def by blast

lemma cache_inv_balance: "cache_inv h c \<Longrightarrow> m_size (m_set c) + length (m_pool c) = m_max_size c"
  by (simp add: cache_inv_def)

lemma cache_inv_max: "cache_inv h c \<Longrightarrow> 0 < m_max_size c"
  by (simp add: cache_inv_def)

lemma cache_inv_nodes: "cache_inv h c \<Longrightarrow> distinct (map fst (m_lru_list c))"
  by (simp add: cache_inv_def)

lemma cache_inv_arena:
  "cache_inv h c \<Longrightarrow> snd ` set (m_lru_list c) \<subseteq> set (m_pool c) \<union> set (elements (m_set c))"
  unfolding cache_inv_def by blast

lemma cache_inv_cit: "cache_inv h c \<Longrightarrow> entries c p = Some e \<Longrightarrow> (m_lru_cit e, p) \<in> set (m_lru_list c)"
  unfolding cache_inv_def by blast

lemma cache_invI:
  assumes "table_inv (hash_cache_entry h) eq_cache_entry (entries c) (m_set c)"
    and "\<And>p. entries c p \<noteq> None \<longleftrightarrow> p \<in> set (elements (m_set c))"
    and "distinct (m_pool c)"
    and "set (m_pool c) \<inter> set (elements (m_set c)) = {}"
    and "m_size (m_set c) + length (m_pool c) = m_max_size c"
    and "0 < m_max_size c"
    and "distinct (map fst (m_lru_list c))"
    and "snd ` set (m_lru_list c) \<subseteq> set (m_pool c) \<union> set (elements (m_set c))"
    and "\<And>p e. entries c p = Some e \<Longrightarrow> (m_lru_cit e, p) \<in> set (m_lru_list c)"
  shows "cache_inv h c"
  unfolding cache_inv_def using assms by blast

lemma cache_inv_unique_op:
  assumes inv: "cache_inv h c"
    and "entries c p = Some e" "entries c q = Some e'" "m_operation e = m_operation e'"
  shows "p = q"
proof -
  from cache_inv_table [OF inv]
  have binv: "buckets_inv (hash_cache_entry h) eq_cache_entry (entries c)
                (m_nb_buckets (m_set c)) (m_buckets (m_set c)) (m_size (m_set c))"
    by (simp add: table_inv_def)
  have "p \<in> set (concat (m_buckets (m_set c)))" "q \<in> set (concat (m_buckets (m_set c)))"
    using cache_inv_chained [OF inv] assms(2,3) by (simp_all add: elements_def del: set_concat)
  then show ?thesis
    using buckets_inv_unique [OF binv _ _ assms(2,3)] assms(4) by (simp add: eq_cache_entry_def)
qed

lemma probe_hit:
  assumes inv: "cache_inv h c" and e: "entries c p = Some e" "m_operation e = op"
  shows "insert_check (h op) (\<lambda>rhs. op = m_operation rhs) (entries c) (m_set c) =
           Inr (Some p, h op AND (m_nb_buckets (m_set c) - 1))"
proof -
  have compat: "\<And>dz. op = m_operation dz \<Longrightarrow> hash_cache_entry h dz = h op"
    by (simp add: hash_cache_entry_def seed_def)
  from insert_check_ok [OF cache_inv_table [OF inv], of "\<lambda>rhs. op = m_operation rhs" "h op"] compat
  obtain r where r: "insert_check (h op) (\<lambda>rhs. op = m_operation rhs) (entries c) (m_set c) =
      Inr (r, h op AND (m_nb_buckets (m_set c) - 1))"
    "case r of None \<Rightarrow> \<forall>y\<in>set (elements (m_set c)). \<forall>dy. entries c y = Some dy \<longrightarrow> op \<noteq> m_operation dy
     | Some y \<Rightarrow> y \<in> set (elements (m_set c)) \<and> (\<exists>dy. entries c y = Some dy \<and> op = m_operation dy)"
    by blast
  have pin: "p \<in> set (elements (m_set c))" using cache_inv_chained [OF inv e(1)] .
  show ?thesis
  proof (cases r)
    case None
    with r(2) pin e show ?thesis by auto
  next
    case (Some y)
    with r(2) obtain dy where "entries c y = Some dy" "op = m_operation dy" by auto
    then have "y = p" using cache_inv_unique_op [OF inv _ e(1)] e(2) by simp
    with Some r(1) show ?thesis by simp
  qed
qed

lemma probe_miss:
  assumes inv: "cache_inv h c" and none0: "\<forall>p e. entries c p = Some e \<longrightarrow> m_operation e \<noteq> op"
  shows "insert_check (h op) (\<lambda>rhs. op = m_operation rhs) (entries c) (m_set c) =
           Inr (None, h op AND (m_nb_buckets (m_set c) - 1))"
proof -
  have none: "\<And>p e. entries c p = Some e \<Longrightarrow> m_operation e \<noteq> op"
    using none0 by blast
  have compat: "\<And>dz. op = m_operation dz \<Longrightarrow> hash_cache_entry h dz = h op"
    by (simp add: hash_cache_entry_def seed_def)
  from insert_check_ok [OF cache_inv_table [OF inv], of "\<lambda>rhs. op = m_operation rhs" "h op"] compat
  obtain r where r: "insert_check (h op) (\<lambda>rhs. op = m_operation rhs) (entries c) (m_set c) =
      Inr (r, h op AND (m_nb_buckets (m_set c) - 1))"
    "case r of None \<Rightarrow> \<forall>y\<in>set (elements (m_set c)). \<forall>dy. entries c y = Some dy \<longrightarrow> op \<noteq> m_operation dy
     | Some y \<Rightarrow> y \<in> set (elements (m_set c)) \<and> (\<exists>dy. entries c y = Some dy \<and> op = m_operation dy)"
    by blast
  show ?thesis
  proof (cases r)
    case None
    with r(1) show ?thesis by simp
  next
    case (Some y)
    with r(2) none show ?thesis by auto
  qed
qed

lemma lru_splice_end_node:
  assumes "distinct (map fst l)" and "(n, p) \<in> set l"
  shows "lru_splice_end n l = Some (filter (\<lambda>node. fst node \<noteq> n) l @ [(n, p)])"
proof -
  from assms(2) obtain node where node: "find (\<lambda>node. fst node = n) l = Some node"
    by (cases "find (\<lambda>node. fst node = n) l") (auto simp: find_None_iff)
  then have "node \<in> set l" "fst node = n" by (auto simp: find_Some_iff dest: nth_mem)
  with assms have "node = (n, p)" by (metis eq_key_imp_eq_value prod.collapse)
  with node show ?thesis by (simp add: lru_splice_end_def)
qed

lemma lookup_hit:
  assumes inv: "cache_inv h c" and acc: "apply_filters Filters op = Inr True"
    and e: "entries c p = Some e" "m_operation e = op"
  shows "cache_lookup h Filters run op c =
           Inr (Inr (m_result e),
                c \<lparr> m_stats := (m_stats c) \<lparr> hits := hits (m_stats c) + 1 \<rparr>,
                    m_lru_list := filter (\<lambda>node. fst node \<noteq> m_lru_cit e) (m_lru_list c) @
                                  [(m_lru_cit e, p)] \<rparr>)"
  using acc probe_hit [OF inv e] e(1)
    lru_splice_end_node [OF cache_inv_nodes [OF inv] cache_inv_cit [OF inv e(1)]]
  by (simp add: cache_lookup_def)


lemma table_inv_cong:
  assumes "table_inv hashD eqD deref t"
    and "\<And>z. z \<in> set (elements t) \<Longrightarrow> deref' z = deref z"
  shows "table_inv hashD eqD deref' t"
  using assms buckets_inv_cong [of hashD eqD deref "m_nb_buckets t" "m_buckets t" "m_size t" deref']
  by (simp add: table_inv_def elements_def del: set_concat)

lemma table_inv_size: "table_inv hashD eqD deref t \<Longrightarrow> m_size t = length (elements t)"
  by (simp add: table_inv_def buckets_inv_def elements_def)

lemma evict_ok:
  assumes inv: "cache_inv h c" and full: "m_size (m_set c) = m_max_size c"
  shows "\<exists>n oldest lru e tbl.
           m_lru_list c = (n, oldest) # lru \<and> entries c oldest = Some e \<and>
           erase (hash_cache_entry h) eq_cache_entry (entries c) oldest (m_set c) = Inr tbl \<and>
           set (elements tbl) = set (elements (m_set c)) - {oldest} \<and>
           m_size tbl + 1 = m_size (m_set c) \<and>
           m_nb_buckets tbl = m_nb_buckets (m_set c) \<and>
           m_pool c = [] \<and>
           evict h c =
             Inr (c \<lparr> m_set := tbl,
                      entries := (entries c) (oldest := None),
                      m_pool := [oldest],
                      m_lru_list := lru,
                      m_stats := (m_stats c) \<lparr> discarded := discarded (m_stats c) + 1 \<rparr> \<rparr>) \<and>
           cache_inv h
             (c \<lparr> m_set := tbl,
                  entries := (entries c) (oldest := None),
                  m_pool := [oldest],
                  m_lru_list := lru,
                  m_stats := (m_stats c) \<lparr> discarded := discarded (m_stats c) + 1 \<rparr> \<rparr>)"
proof -
  note tinv = cache_inv_table [OF inv]
  have pool: "m_pool c = []" using cache_inv_balance [OF inv] full by simp
  have "0 < length (elements (m_set c))"
    using table_inv_size [OF tinv] full cache_inv_max [OF inv] by simp
  then obtain p where p: "p \<in> set (elements (m_set c))"
    by (cases "elements (m_set c)") auto
  from cache_inv_constructed [OF inv p] obtain e' where "entries c p = Some e'" by blast
  from cache_inv_cit [OF inv this] obtain n oldest lru where lru: "m_lru_list c = (n, oldest) # lru"
    by (cases "m_lru_list c") auto
  have oin: "oldest \<in> set (elements (m_set c))"
    using cache_inv_arena [OF inv] lru pool by auto
  from cache_inv_constructed [OF inv oin] obtain e where e: "entries c oldest = Some e" by blast
  from erase_ok [OF cache_entry_contract tinv oin] obtain tbl where tbl:
    "erase (hash_cache_entry h) eq_cache_entry (entries c) oldest (m_set c) = Inr tbl"
    "table_inv (hash_cache_entry h) eq_cache_entry (entries c) tbl"
    "set (elements tbl) = set (elements (m_set c)) - {oldest}"
    "m_size tbl + 1 = m_size (m_set c)" "m_nb_buckets tbl = m_nb_buckets (m_set c)" by blast
  let ?c' = "c \<lparr> m_set := tbl,
                  entries := (entries c) (oldest := None),
                  m_pool := [oldest],
                  m_lru_list := lru,
                  m_stats := (m_stats c) \<lparr> discarded := discarded (m_stats c) + 1 \<rparr> \<rparr>"
  have res: "evict h c = Inr ?c'"
    using lru tbl(1) pool by (simp add: evict_def deallocate_def)
  have inv': "cache_inv h ?c'"
  proof (rule cache_invI)
    show "table_inv (hash_cache_entry h) eq_cache_entry (entries ?c') (m_set ?c')"
      using table_inv_cong [OF tbl(2), of "(entries c) (oldest := None)"] tbl(3) by simp
    show "entries ?c' q \<noteq> None \<longleftrightarrow> q \<in> set (elements (m_set ?c'))" for q
      using cache_inv_live [OF inv, of q] tbl(3) by simp
    show "distinct (m_pool ?c')" by simp
    show "set (m_pool ?c') \<inter> set (elements (m_set ?c')) = {}" using tbl(3) by simp
    show "m_size (m_set ?c') + length (m_pool ?c') = m_max_size ?c'"
      using tbl(4) full by simp
    show "0 < m_max_size ?c'" using cache_inv_max [OF inv] by simp
    show "distinct (map fst (m_lru_list ?c'))" using cache_inv_nodes [OF inv] lru by simp
    show "snd ` set (m_lru_list ?c') \<subseteq> set (m_pool ?c') \<union> set (elements (m_set ?c'))"
      using cache_inv_arena [OF inv] lru pool tbl(3) by auto
    show "(m_lru_cit e', q) \<in> set (m_lru_list ?c')" if "entries ?c' q = Some e'" for q e'
    proof -
      from that have q: "q \<noteq> oldest" "entries c q = Some e'" by (auto split: if_splits)
      from cache_inv_cit [OF inv q(2)] lru q(1) show ?thesis by auto
    qed
  qed
  show ?thesis using lru e tbl res inv' pool by blast
qed

lemma fresh_node_bound: "node \<in> set l \<Longrightarrow> fst node < fold (\<lambda>node m. max (Suc (fst node)) m) l k"
proof (induction l arbitrary: k)
  case Nil
  then show ?case by simp
next
  case (Cons a l)
  have mono: "k \<le> fold (\<lambda>node m. max (Suc (fst node)) m) l k" for k
  proof (induction l arbitrary: k)
    case Nil
    show ?case by simp
  next
    case (Cons b l)
    have "k \<le> max (Suc (fst b)) k" by simp
    also have "\<dots> \<le> fold (\<lambda>node m. max (Suc (fst node)) m) l (max (Suc (fst b)) k)"
      by (rule Cons.IH)
    finally show ?case by simp
  qed
  show ?case
  proof (cases "node = a")
    case True
    have "Suc (fst a) \<le> max (Suc (fst a)) k" by simp
    also have "\<dots> \<le> fold (\<lambda>node m. max (Suc (fst node)) m) l (max (Suc (fst a)) k)" by (rule mono)
    finally show ?thesis using True by simp
  next
    case False
    with Cons show ?thesis by simp
  qed
qed

lemma fresh_node_new: "fresh_node l \<notin> fst ` set l"
  using fresh_node_bound [of _ l 0] by (fastforce simp: fresh_node_def)

lemma store_ok:
  assumes inv: "cache_inv h c" and room: "m_pool c \<noteq> []"
    and none0: "\<forall>p e. entries c p = Some e \<longrightarrow> m_operation e \<noteq> op"
  shows "\<exists>entry free_list.
           m_pool c = entry # free_list \<and> entries c entry = None \<and>
           store op res (h op AND (m_nb_buckets (m_set c) - 1)) c =
             Inr (c \<lparr> m_pool := free_list,
                      entries := (entries c)
                        (entry \<mapsto> \<lparr> m_operation = op, m_result = res,
                                     m_lru_cit = fresh_node (m_lru_list c) \<rparr>),
                      m_lru_list := m_lru_list c @ [(fresh_node (m_lru_list c), entry)],
                      m_set := insert_commit entry (h op AND (m_nb_buckets (m_set c) - 1)) (m_set c) \<rparr>) \<and>
           set (elements (insert_commit entry (h op AND (m_nb_buckets (m_set c) - 1)) (m_set c))) =
             insert entry (set (elements (m_set c))) \<and>
           m_size (insert_commit entry (h op AND (m_nb_buckets (m_set c) - 1)) (m_set c)) =
             m_size (m_set c) + 1 \<and>
           cache_inv h
             (c \<lparr> m_pool := free_list,
                  entries := (entries c)
                    (entry \<mapsto> \<lparr> m_operation = op, m_result = res,
                                 m_lru_cit = fresh_node (m_lru_list c) \<rparr>),
                  m_lru_list := m_lru_list c @ [(fresh_node (m_lru_list c), entry)],
                  m_set := insert_commit entry (h op AND (m_nb_buckets (m_set c) - 1)) (m_set c) \<rparr>)"
proof -
  have none: "\<And>p e. entries c p = Some e \<Longrightarrow> m_operation e \<noteq> op"
    using none0 by blast
  from room obtain entry free_list where pool: "m_pool c = entry # free_list"
    by (cases "m_pool c") auto
  define new where "new = \<lparr> m_operation = op, m_result = res, m_lru_cit = fresh_node (m_lru_list c) \<rparr>"
  define mem where "mem = (entries c) (entry \<mapsto> new)"
  define pos where "pos = h op AND (m_nb_buckets (m_set c) - 1)"
  define tbl where "tbl = insert_commit entry pos (m_set c)"
  let ?c' = "c \<lparr> m_pool := free_list, entries := mem,
                 m_lru_list := m_lru_list c @ [(fresh_node (m_lru_list c), entry)],
                 m_set := tbl \<rparr>"
  note tinv = cache_inv_table [OF inv]
  have enew: "entry \<notin> set (elements (m_set c))"
    using cache_inv_pool_disjoint [OF inv] pool by auto
  then have efree: "entries c entry = None" using cache_inv_live [OF inv, of entry] by simp
  have tinv_mem: "table_inv (hash_cache_entry h) eq_cache_entry mem (m_set c)"
    by (rule table_inv_cong [OF tinv]) (use enew in \<open>auto simp: mem_def\<close>)
  have none': "\<forall>y\<in>set (elements (m_set c)). \<forall>dy. mem y = Some dy \<longrightarrow> \<not> eq_cache_entry new dy"
  proof (intro ballI allI impI)
    fix y dy assume "y \<in> set (elements (m_set c))" "mem y = Some dy"
    with enew have "entries c y = Some dy" by (auto simp: mem_def split: if_splits)
    from none [OF this] show "\<not> eq_cache_entry new dy" by (auto simp: eq_cache_entry_def new_def)
  qed
  have hnew: "hash_cache_entry h new = h op" by (simp add: hash_cache_entry_def seed_def new_def)
  have xm: "mem entry = Some new" by (simp add: mem_def)
  from insert_commit_ok [OF cache_entry_contract tinv_mem xm none']
  have tbl: "table_inv (hash_cache_entry h) eq_cache_entry mem tbl"
    "set (elements tbl) = insert entry (set (elements (m_set c)))"
    "m_size tbl = m_size (m_set c) + 1"
    unfolding hnew by (simp_all add: tbl_def pos_def)
  have res: "store op res pos c = Inr ?c'"
    using pool by (simp add: store_def allocate_def lru_insert_end_def mem_def new_def tbl_def)
  have inv': "cache_inv h ?c'"
  proof (rule cache_invI)
    show "table_inv (hash_cache_entry h) eq_cache_entry (entries ?c') (m_set ?c')"
      using tbl(1) by simp
    show "entries ?c' q \<noteq> None \<longleftrightarrow> q \<in> set (elements (m_set ?c'))" for q
      using cache_inv_live [OF inv, of q] tbl(2) by (simp add: mem_def)
    show "distinct (m_pool ?c')" using cache_inv_pool_distinct [OF inv] pool by simp
    show "set (m_pool ?c') \<inter> set (elements (m_set ?c')) = {}"
      using cache_inv_pool_disjoint [OF inv] cache_inv_pool_distinct [OF inv] pool tbl(2) by auto
    show "m_size (m_set ?c') + length (m_pool ?c') = m_max_size ?c'"
      using cache_inv_balance [OF inv] pool tbl(3) by simp
    show "0 < m_max_size ?c'" using cache_inv_max [OF inv] by simp
    show "distinct (map fst (m_lru_list ?c'))"
      using cache_inv_nodes [OF inv] fresh_node_new [of "m_lru_list c"] by simp
    show "snd ` set (m_lru_list ?c') \<subseteq> set (m_pool ?c') \<union> set (elements (m_set ?c'))"
      using cache_inv_arena [OF inv] pool tbl(2) by auto
    show "(m_lru_cit e', q) \<in> set (m_lru_list ?c')" if "entries ?c' q = Some e'" for q e'
    proof (cases "q = entry")
      case True
      with that have "e' = new" by (simp add: mem_def)
      with True show ?thesis by (simp add: new_def)
    next
      case False
      with that have "entries c q = Some e'" by (simp add: mem_def)
      from cache_inv_cit [OF inv this] show ?thesis by simp
    qed
  qed
  show ?thesis
    using pool efree res tbl(2,3) inv' unfolding mem_def new_def tbl_def pos_def by blast
qed


lemma cache_inv_stats [simp]: "cache_inv h (c \<lparr> m_stats := st \<rparr>) = cache_inv h c"
  by (simp add: cache_inv_def)

lemma lookup_miss_value:
  assumes inv: "cache_inv h c" and acc: "apply_filters Filters op = Inr True"
    and none0: "\<forall>p e. entries c p = Some e \<longrightarrow> m_operation e \<noteq> op"
    and val: "f op = Inr res"
  obtains c1 c2 c' entry n e where
    "c1 = c \<lparr> m_stats := (m_stats c) \<lparr> misses := misses (m_stats c) + 1 \<rparr> \<rparr>"
    "(if m_size (m_set c) = m_max_size c then evict h c1 else Inr c1) = Inr c2"
    "store op res (h op AND (m_nb_buckets (m_set c) - 1)) c2 = Inr c'"
    "cache_lookup h Filters (pure_run f) op c = Inr (Inr res, c')"
    "cache_inv h c2" "cache_inv h c'"
    "m_pool c2 = entry # m_pool c'" "entries c2 entry = None"
    "m_lru_list c' = m_lru_list c2 @ [(fresh_node (m_lru_list c2), entry)]"
    "entries c' = (entries c2)
       (entry \<mapsto> \<lparr> m_operation = op, m_result = res, m_lru_cit = fresh_node (m_lru_list c2) \<rparr>)"
    "set (elements (m_set c')) = insert entry (set (elements (m_set c2)))"
    "m_size (m_set c') = m_size (m_set c2) + 1"
    "m_max_size c' = m_max_size c" "m_stats c' = m_stats c2"
    "m_size (m_set c) \<noteq> m_max_size c \<Longrightarrow> c2 = c1"
    "m_size (m_set c) = m_max_size c \<Longrightarrow> m_lru_list c = (n, entry) # m_lru_list c2"
    "m_size (m_set c) = m_max_size c \<Longrightarrow> entries c entry = Some e"
    "m_size (m_set c) = m_max_size c \<Longrightarrow> entries c2 = (entries c) (entry := None)"
    "m_size (m_set c) = m_max_size c \<Longrightarrow>
       set (elements (m_set c2)) = set (elements (m_set c)) - {entry}"
    "m_size (m_set c) = m_max_size c \<Longrightarrow> m_size (m_set c2) + 1 = m_size (m_set c)"
    "m_size (m_set c) = m_max_size c \<Longrightarrow> m_pool c = []"
    "m_size (m_set c) = m_max_size c \<Longrightarrow> m_pool c2 = [entry]"
    "m_size (m_set c) = m_max_size c \<Longrightarrow>
       m_stats c2 = (m_stats c1) \<lparr> discarded := discarded (m_stats c1) + 1 \<rparr>"
proof -
  define c1 where "c1 = c \<lparr> m_stats := (m_stats c) \<lparr> misses := misses (m_stats c) + 1 \<rparr> \<rparr>"
  define pos where "pos = h op AND (m_nb_buckets (m_set c) - 1)"
  have inv1: "cache_inv h c1" using inv by (simp add: c1_def)
  have probe: "insert_check (h op) (\<lambda>rhs. op = m_operation rhs) (entries c) (m_set c) = Inr (None, pos)"
    unfolding pos_def by (rule probe_miss [OF inv none0])
  have look: "cache_lookup h Filters (pure_run f) op c =
      (case (if m_size (m_set c1) = m_max_size c1 then evict h c1 else Inr c1) of
         Inl flt \<Rightarrow> Inl flt
       | Inr c2 \<Rightarrow> (case store op res pos c2 of Inl flt \<Rightarrow> Inl flt | Inr c3 \<Rightarrow> Inr (Inr res, c3)))"
    using acc probe val by (simp add: cache_lookup_def pure_run_def c1_def)
  have none1: "\<forall>p e. entries c1 p = Some e \<longrightarrow> m_operation e \<noteq> op"
    using none0 by (simp add: c1_def)
  have tail: "\<exists>c' entry.
      store op res pos c2 = Inr c' \<and> cache_inv h c' \<and> m_pool c2 = entry # m_pool c' \<and>
      entries c2 entry = None \<and>
      m_lru_list c' = m_lru_list c2 @ [(fresh_node (m_lru_list c2), entry)] \<and>
      entries c' = (entries c2)
        (entry \<mapsto> \<lparr> m_operation = op, m_result = res, m_lru_cit = fresh_node (m_lru_list c2) \<rparr>) \<and>
      set (elements (m_set c')) = insert entry (set (elements (m_set c2))) \<and>
      m_size (m_set c') = m_size (m_set c2) + 1 \<and>
      m_max_size c' = m_max_size c2 \<and> m_stats c' = m_stats c2"
    if inv2: "cache_inv h c2" and room: "m_pool c2 \<noteq> []"
      and none2: "\<forall>p e. entries c2 p = Some e \<longrightarrow> m_operation e \<noteq> op"
      and nb2: "m_nb_buckets (m_set c2) = m_nb_buckets (m_set c)" for c2
  proof -
    from store_ok [OF inv2 room none2, where res = res] obtain entry free_list where st:
      "m_pool c2 = entry # free_list" "entries c2 entry = None"
      "store op res pos c2 =
         Inr (c2 \<lparr> m_pool := free_list,
                   entries := (entries c2)
                     (entry \<mapsto> \<lparr> m_operation = op, m_result = res,
                                  m_lru_cit = fresh_node (m_lru_list c2) \<rparr>),
                   m_lru_list := m_lru_list c2 @ [(fresh_node (m_lru_list c2), entry)],
                   m_set := insert_commit entry pos (m_set c2) \<rparr>)"
      "set (elements (insert_commit entry pos (m_set c2))) = insert entry (set (elements (m_set c2)))"
      "m_size (insert_commit entry pos (m_set c2)) = m_size (m_set c2) + 1"
      "cache_inv h
         (c2 \<lparr> m_pool := free_list,
               entries := (entries c2)
                 (entry \<mapsto> \<lparr> m_operation = op, m_result = res,
                              m_lru_cit = fresh_node (m_lru_list c2) \<rparr>),
               m_lru_list := m_lru_list c2 @ [(fresh_node (m_lru_list c2), entry)],
               m_set := insert_commit entry pos (m_set c2) \<rparr>)"
      unfolding nb2 pos_def by blast
    show ?thesis
      apply (rule exI [of _ "c2 \<lparr> m_pool := free_list,
               entries := (entries c2)
                 (entry \<mapsto> \<lparr> m_operation = op, m_result = res,
                              m_lru_cit = fresh_node (m_lru_list c2) \<rparr>),
               m_lru_list := m_lru_list c2 @ [(fresh_node (m_lru_list c2), entry)],
               m_set := insert_commit entry pos (m_set c2) \<rparr>"])
      apply (rule exI [of _ entry])
      using st by simp
  qed
  show ?thesis
  proof (cases "m_size (m_set c) = m_max_size c")
    case True
    then have full: "m_size (m_set c1) = m_max_size c1" by (simp add: c1_def)
    from evict_ok [OF inv1 full] obtain n oldest lru e tbl where ev:
      "m_lru_list c1 = (n, oldest) # lru" "entries c1 oldest = Some e"
      "set (elements tbl) = set (elements (m_set c1)) - {oldest}"
      "m_size tbl + 1 = m_size (m_set c1)"
      "m_nb_buckets tbl = m_nb_buckets (m_set c1)"
      "m_pool c1 = []"
      "evict h c1 =
         Inr (c1 \<lparr> m_set := tbl, entries := (entries c1) (oldest := None), m_pool := [oldest],
                   m_lru_list := lru,
                   m_stats := (m_stats c1) \<lparr> discarded := discarded (m_stats c1) + 1 \<rparr> \<rparr>)"
      "cache_inv h
         (c1 \<lparr> m_set := tbl, entries := (entries c1) (oldest := None), m_pool := [oldest],
               m_lru_list := lru,
               m_stats := (m_stats c1) \<lparr> discarded := discarded (m_stats c1) + 1 \<rparr> \<rparr>)"
      by blast
    define c2 where "c2 = c1 \<lparr> m_set := tbl, entries := (entries c1) (oldest := None),
       m_pool := [oldest], m_lru_list := lru,
       m_stats := (m_stats c1) \<lparr> discarded := discarded (m_stats c1) + 1 \<rparr> \<rparr>"
    have inv2: "cache_inv h c2" using ev(8) by (simp add: c2_def)
    have room: "m_pool c2 \<noteq> []" by (simp add: c2_def)
    have none2: "\<forall>p e. entries c2 p = Some e \<longrightarrow> m_operation e \<noteq> op"
      using none1 by (auto simp: c2_def split: if_splits)
    have nb2: "m_nb_buckets (m_set c2) = m_nb_buckets (m_set c)"
      using ev(5) by (simp add: c2_def c1_def)
    from tail [OF inv2 room none2 nb2] obtain c' entry where t:
      "store op res pos c2 = Inr c'" "cache_inv h c'" "m_pool c2 = entry # m_pool c'"
      "entries c2 entry = None"
      "m_lru_list c' = m_lru_list c2 @ [(fresh_node (m_lru_list c2), entry)]"
      "entries c' = (entries c2)
        (entry \<mapsto> \<lparr> m_operation = op, m_result = res, m_lru_cit = fresh_node (m_lru_list c2) \<rparr>)"
      "set (elements (m_set c')) = insert entry (set (elements (m_set c2)))"
      "m_size (m_set c') = m_size (m_set c2) + 1"
      "m_max_size c' = m_max_size c2" "m_stats c' = m_stats c2" by blast
    have eo: "entry = oldest" using t(3) by (simp add: c2_def)
    have G1: "c1 = c \<lparr> m_stats := (m_stats c) \<lparr> misses := misses (m_stats c) + 1 \<rparr> \<rparr>"
      by (rule c1_def)
    have G2: "evict h c1 = Inr c2" using ev(7) by (simp add: c2_def)
    have G3: "store op res (h op AND (m_nb_buckets (m_set c) - 1)) c2 = Inr c'"
      using t(1) by (simp add: pos_def)
    have G4: "cache_lookup h Filters (pure_run f) op c = Inr (Inr res, c')"
      using look full G2 t(1) by simp
    have G14: "m_max_size c' = m_max_size c" using t(9) by (simp add: c2_def c1_def)
    have ev': "m_lru_list c = (n, entry) # m_lru_list c2" "entries c entry = Some e"
      "entries c2 = (entries c) (entry := None)"
      "set (elements (m_set c2)) = set (elements (m_set c)) - {entry}"
      "m_size (m_set c2) + 1 = m_size (m_set c)" "m_pool c = []" "m_pool c2 = [entry]"
      "m_stats c2 = (m_stats c1) \<lparr> discarded := discarded (m_stats c1) + 1 \<rparr>"
      using ev(1-4,6) eo by (simp_all add: c2_def c1_def)
    have G2': "(if m_size (m_set c) = m_max_size c then evict h c1 else Inr c1) = Inr c2"
      using True G2 by simp
    show thesis
      by (rule that [OF G1 G2' G3 G4 inv2 t(2-8) G14 t(10) _ ev']) (use True in simp)
  next
    case False
    then have notfull: "m_size (m_set c1) \<noteq> m_max_size c1" by (simp add: c1_def)
    have room: "m_pool c1 \<noteq> []" using cache_inv_balance [OF inv1] notfull by auto
    have nb1: "m_nb_buckets (m_set c1) = m_nb_buckets (m_set c)" by (simp add: c1_def)
    from tail [OF inv1 room none1 nb1] obtain c' entry where t:
      "store op res pos c1 = Inr c'" "cache_inv h c'" "m_pool c1 = entry # m_pool c'"
      "entries c1 entry = None"
      "m_lru_list c' = m_lru_list c1 @ [(fresh_node (m_lru_list c1), entry)]"
      "entries c' = (entries c1)
        (entry \<mapsto> \<lparr> m_operation = op, m_result = res, m_lru_cit = fresh_node (m_lru_list c1) \<rparr>)"
      "set (elements (m_set c')) = insert entry (set (elements (m_set c1)))"
      "m_size (m_set c') = m_size (m_set c1) + 1"
      "m_max_size c' = m_max_size c1" "m_stats c' = m_stats c1" by blast
    have G1: "c1 = c \<lparr> m_stats := (m_stats c) \<lparr> misses := misses (m_stats c) + 1 \<rparr> \<rparr>"
      by (rule c1_def)
    have G3: "store op res (h op AND (m_nb_buckets (m_set c) - 1)) c1 = Inr c'"
      using t(1) by (simp add: pos_def)
    have G4: "cache_lookup h Filters (pure_run f) op c = Inr (Inr res, c')"
      using look notfull t(1) by simp
    have G14: "m_max_size c' = m_max_size c" using t(9) by (simp add: c1_def)
    have G2': "(if m_size (m_set c) = m_max_size c then evict h c1 else Inr c1) = Inr c1"
      using False by simp
    show thesis
      by (rule that [OF G1 G2' G3 G4 inv1 t(2-8) G14 t(10), of 0 undefined])
         (use False in simp_all)
  qed
qed

lemma splice_set:
  assumes "distinct (map fst l)" and "(n, p) \<in> set l"
  shows "set (filter (\<lambda>node. fst node \<noteq> n) l @ [(n, p)]) = set l"
proof -
  have inj: "inj_on fst (set l)" using assms(1) by (simp add: distinct_map)
  have key: "node = (n, p)" if "node \<in> set l" "fst node = n" for node
    by (rule inj_onD [OF inj _ that(1) assms(2)]) (simp add: that(2))
  show ?thesis
  proof (rule set_eqI)
    fix x
    show "x \<in> set (filter (\<lambda>node. fst node \<noteq> n) l @ [(n, p)]) \<longleftrightarrow> x \<in> set l"
    proof (cases "fst x = n")
      case True
      with key [of x] assms(2) show ?thesis by auto
    next
      case False
      then have "x \<noteq> (n, p)" by auto
      with False show ?thesis by simp
    qed
  qed
qed

lemma hit_inv:
  assumes inv: "cache_inv h c" and e: "entries c p = Some e"
  shows "cache_inv h
           (c \<lparr> m_stats := st,
                m_lru_list := filter (\<lambda>node. fst node \<noteq> m_lru_cit e) (m_lru_list c) @
                              [(m_lru_cit e, p)] \<rparr>)"
proof -
  let ?l = "filter (\<lambda>node. fst node \<noteq> m_lru_cit e) (m_lru_list c) @ [(m_lru_cit e, p)]"
  have set_l: "set ?l = set (m_lru_list c)"
    by (rule splice_set [OF cache_inv_nodes [OF inv] cache_inv_cit [OF inv e]])
  have dist: "distinct (map fst ?l)"
    using cache_inv_nodes [OF inv] by (auto simp: distinct_map_filter)
  show ?thesis
  proof (rule cache_invI)
    show "distinct (map fst (m_lru_list (c \<lparr> m_stats := st, m_lru_list := ?l \<rparr>)))"
      using dist by simp
    show "snd ` set (m_lru_list (c \<lparr> m_stats := st, m_lru_list := ?l \<rparr>))
            \<subseteq> set (m_pool (c \<lparr> m_stats := st, m_lru_list := ?l \<rparr>)) \<union>
              set (elements (m_set (c \<lparr> m_stats := st, m_lru_list := ?l \<rparr>)))"
      using cache_inv_arena [OF inv] set_l by (simp del: set_append set_filter)
    show "(m_lru_cit e', q) \<in> set (m_lru_list (c \<lparr> m_stats := st, m_lru_list := ?l \<rparr>))"
      if "entries (c \<lparr> m_stats := st, m_lru_list := ?l \<rparr>) q = Some e'" for q e'
      using that cache_inv_cit [OF inv, of q e'] set_l by (simp del: set_append set_filter)
    show "entries (c \<lparr> m_stats := st, m_lru_list := ?l \<rparr>) q \<noteq> None \<longleftrightarrow>
          q \<in> set (elements (m_set (c \<lparr> m_stats := st, m_lru_list := ?l \<rparr>)))" for q
      using cache_inv_live [OF inv, of q] by simp
    show "table_inv (hash_cache_entry h) eq_cache_entry
            (entries (c \<lparr> m_stats := st, m_lru_list := ?l \<rparr>))
            (m_set (c \<lparr> m_stats := st, m_lru_list := ?l \<rparr>))"
      using cache_inv_table [OF inv] by simp
    show "distinct (m_pool (c \<lparr> m_stats := st, m_lru_list := ?l \<rparr>))"
      using cache_inv_pool_distinct [OF inv] by simp
    show "set (m_pool (c \<lparr> m_stats := st, m_lru_list := ?l \<rparr>)) \<inter>
          set (elements (m_set (c \<lparr> m_stats := st, m_lru_list := ?l \<rparr>))) = {}"
      using cache_inv_pool_disjoint [OF inv] by simp
    show "m_size (m_set (c \<lparr> m_stats := st, m_lru_list := ?l \<rparr>)) +
          length (m_pool (c \<lparr> m_stats := st, m_lru_list := ?l \<rparr>)) =
          m_max_size (c \<lparr> m_stats := st, m_lru_list := ?l \<rparr>)"
      using cache_inv_balance [OF inv] by simp
    show "0 < m_max_size (c \<lparr> m_stats := st, m_lru_list := ?l \<rparr>)"
      using cache_inv_max [OF inv] by simp
  qed
qed

lemma results_of_stats [simp]: "results_of f (c \<lparr> m_stats := st \<rparr>) = results_of f c"
  by (simp add: results_of_def)


lemma miss_throw:
  assumes inv: "cache_inv h c" and acc: "apply_filters Filters op = Inr True"
    and none: "\<forall>p e. entries c p = Some e \<longrightarrow> m_operation e \<noteq> op"
    and ex: "f op = Inl ex"
  shows "cache_lookup h Filters (pure_run f) op c =
           Inr (Inl ex, c \<lparr> m_stats := (m_stats c) \<lparr> misses := misses (m_stats c) + 1 \<rparr> \<rparr>)"
  using acc probe_miss [OF inv none] ex by (simp add: cache_lookup_def pure_run_def)

lemma miss_value_entries:
  assumes inv: "cache_inv h c" and acc: "apply_filters Filters op = Inr True"
    and none0: "\<forall>p e. entries c p = Some e \<longrightarrow> m_operation e \<noteq> op"
    and val: "f op = Inr res"
  obtains c' entry cit where
    "cache_lookup h Filters (pure_run f) op c = Inr (Inr res, c')" "cache_inv h c'"
    "entries c' = (entries c)
       (entry \<mapsto> \<lparr> m_operation = op, m_result = res, m_lru_cit = cit \<rparr>)"
    "m_max_size c' = m_max_size c"
    "misses (m_stats c') = misses (m_stats c) + 1"
proof -
  from lookup_miss_value [where f = f and res = res, OF inv acc none0 val]
  obtain c1 c2 c' entry where st:
    "c1 = c \<lparr> m_stats := (m_stats c) \<lparr> misses := misses (m_stats c) + 1 \<rparr> \<rparr>"
    "cache_lookup h Filters (pure_run f) op c = Inr (Inr res, c')"
    "cache_inv h c'"
    "entries c' = (entries c2)
       (entry \<mapsto> \<lparr> m_operation = op, m_result = res, m_lru_cit = fresh_node (m_lru_list c2) \<rparr>)"
    "m_max_size c' = m_max_size c" "m_stats c' = m_stats c2"
    "m_size (m_set c) \<noteq> m_max_size c \<Longrightarrow> c2 = c1"
    "m_size (m_set c) = m_max_size c \<Longrightarrow> entries c2 = (entries c) (entry := None)"
    "m_size (m_set c) = m_max_size c \<Longrightarrow>
       m_stats c2 = (m_stats c1) \<lparr> discarded := discarded (m_stats c1) + 1 \<rparr>"
    by metis
  have ent: "(entries c2) (entry \<mapsto> x) = (entries c) (entry \<mapsto> x)" for x
  proof (cases "m_size (m_set c) = m_max_size c")
    case True
    with st(8) have "entries c2 = (entries c) (entry := None)" by simp
    then show ?thesis by simp
  next
    case False
    with st(7) have "c2 = c1" by simp
    with st(1) show ?thesis by simp
  qed
  have mis: "misses (m_stats c') = misses (m_stats c) + 1"
  proof (cases "m_size (m_set c) = m_max_size c")
    case True
    with st(9) st(6) st(1) show ?thesis by simp
  next
    case False
    with st(7) st(6) st(1) show ?thesis by simp
  qed
  show thesis
    by (rule that [OF st(2,3) _ st(5) mis]) (simp add: st(4) ent)
qed

lemma lookup_preserves:
  assumes inv: "cache_inv h c" and res: "results_of f c"
  shows "\<exists>c'. cache_lookup h Filters (pure_run f) op c =
                 Inr (case apply_filters Filters op of Inl e \<Rightarrow> Inl e | Inr _ \<Rightarrow> f op, c') \<and>
              cache_inv h c' \<and> results_of f c' \<and> m_max_size c' = m_max_size c"
proof (cases "apply_filters Filters op")
  case (Inl e)
  then show ?thesis using inv res by (simp add: cache_lookup_def)
next
  case (Inr b)
  show ?thesis
  proof (cases b)
    case False
    with Inr show ?thesis using inv res by (simp add: cache_lookup_def pure_run_def)
  next
    case True
    with Inr have acc: "apply_filters Filters op = Inr True" by simp
    show ?thesis
    proof (cases "\<exists>p e. entries c p = Some e \<and> m_operation e = op")
      case True
      then obtain p e where e: "entries c p = Some e" "m_operation e = op" by blast
      have fo: "f op = Inr (m_result e)" using res e unfolding results_of_def by blast
      let ?c' = "c \<lparr> m_stats := (m_stats c) \<lparr> hits := hits (m_stats c) + 1 \<rparr>,
                    m_lru_list := filter (\<lambda>node. fst node \<noteq> m_lru_cit e) (m_lru_list c) @
                                  [(m_lru_cit e, p)] \<rparr>"
      have r': "results_of f ?c'" using res by (simp add: results_of_def)
      have "cache_lookup h Filters (pure_run f) op c = Inr (f op, ?c')"
        using lookup_hit [OF inv acc e, of "pure_run f"] fo by simp
      moreover have "cache_inv h ?c'" by (rule hit_inv [OF inv e(1)])
      moreover have "m_max_size ?c' = m_max_size c" by simp
      ultimately show ?thesis using r' acc by (intro exI [of _ ?c']) simp
    next
      case False
      then have none: "\<forall>p e. entries c p = Some e \<longrightarrow> m_operation e \<noteq> op" by blast
      show ?thesis
      proof (cases "f op")
        case (Inl ex)
        show ?thesis using miss_throw [where f = f and ex = ex, OF inv acc none Inl] acc Inl inv res by simp
      next
        case (Inr r)
        from miss_value_entries [where f = f and res = r, OF inv acc none Inr]
        obtain c' entry cit where st:
          "cache_lookup h Filters (pure_run f) op c = Inr (Inr r, c')" "cache_inv h c'"
          "entries c' = (entries c)
             (entry \<mapsto> \<lparr> m_operation = op, m_result = r, m_lru_cit = cit \<rparr>)"
          "m_max_size c' = m_max_size c" by metis
        have "results_of f c'"
          unfolding results_of_def
        proof (intro allI impI)
          fix q e' assume q: "entries c' q = Some e'"
          show "f (m_operation e') = Inr (m_result e')"
          proof (cases "q = entry")
            case True
            with q st(3) have "e' = \<lparr> m_operation = op, m_result = r, m_lru_cit = cit \<rparr>" by simp
            with Inr show ?thesis by simp
          next
            case False
            with q st(3) have "entries c q = Some e'" by simp
            with res show ?thesis unfolding results_of_def by blast
          qed
        qed
        with st(1,2,4) acc Inr show ?thesis by (intro exI [of _ c']) simp
      qed
    qed
  qed
qed


lemma next_power_of_2_pos: "0 < next_power_of_2 n"
proof (induction n rule: next_power_of_2.induct)
  case (1 n)
  then show ?case by (subst next_power_of_2.simps) auto
qed

lemma table_inv_hash_table: "table_inv hashD eqD deref (hash_table sz mlf)"
  using buckets_inv_empty [OF next_power_of_2_pos, of hashD eqD deref sz]
  by (simp add: table_inv_def hash_table_def)

lemma elements_hash_table [simp]: "elements (hash_table sz mlf) = []"
  by (simp add: elements_def hash_table_def)

lemma cache_ctor:
  assumes "cache sz = Inr c"
  shows "cache_inv h c" and "lru_exact c" and "results_of f c"
    and "m_lru_list c = []" and "entries c = (\<lambda>_. None)"
    and "m_set c = hash_table sz max_load_factor"
proof -
  define mx where "mx = nat \<lfloor>real (m_nb_buckets (hash_table sz max_load_factor)) * max_load_factor\<rfloor>"
  have unfold: "cache sz =
      (case pool mx of
         Inl flt \<Rightarrow> Inl flt
       | Inr free_list \<Rightarrow>
           Inr \<lparr> m_set = hash_table sz max_load_factor, m_lru_list = [], m_max_size = mx,
                 m_stats = \<lparr> hits = 0, misses = 0, filtered = 0, discarded = 0 \<rparr>,
                 m_pool = free_list, entries = (\<lambda>_. None) \<rparr>)"
    unfolding cache_def Let_def mx_def by (rule refl)
  have mx: "mx \<noteq> 0"
  proof
    assume "mx = 0"
    then have "pool mx = Inl Out_of_bounds" by (simp add: pool_def)
    with unfold have "cache sz = (Inl Out_of_bounds :: fault + ('a, 'b) cache)" by simp
    with assms show False by (metis sum.distinct(1))
  qed
  then have pm: "pool mx = Inr [0 ..< mx]" by (simp add: pool_def)
  have "Inr c = cache sz" using assms by simp
  also have "\<dots> = Inr \<lparr> m_set = hash_table sz max_load_factor, m_lru_list = [],
      m_max_size = mx,
      m_stats = \<lparr> hits = 0, misses = 0, filtered = 0, discarded = 0 \<rparr>,
      m_pool = [0 ..< mx], entries = (\<lambda>_. None) \<rparr>"
    unfolding unfold pm by simp
  finally have c: "c = \<lparr> m_set = hash_table sz max_load_factor, m_lru_list = [],
      m_max_size = mx,
      m_stats = \<lparr> hits = 0, misses = 0, filtered = 0, discarded = 0 \<rparr>,
      m_pool = [0 ..< mx], entries = (\<lambda>_. None) \<rparr>"
    by simp
  show "cache_inv h c"
    by (rule cache_invI) (use mx in \<open>simp_all add: c table_inv_hash_table\<close>, simp add: hash_table_def)
  show "lru_exact c" by (simp add: lru_exact_def c)
  show "results_of f c" by (simp add: results_of_def c)
  show "m_lru_list c = []" "entries c = (\<lambda>_. None)" "m_set c = hash_table sz max_load_factor"
    by (simp_all add: c)
qed

lemma dispose_fold:
  "fold (\<lambda>x (mem, free_list). (mem (x := None), deallocate x free_list)) xs (mem, fl) =
     ((\<lambda>p. if p \<in> set xs then None else mem p), rev xs @ fl)"
proof -
  define D :: "addr \<Rightarrow> (addr \<Rightarrow> 'a option) \<times> addr list \<Rightarrow> (addr \<Rightarrow> 'a option) \<times> addr list"
    where "D = (\<lambda>x (mem, free_list). (mem (x := None), deallocate x free_list))"
  have step: "D x (mem, fl) = (mem (x := None), x # fl)" for x mem fl
    by (simp add: D_def deallocate_def)
  have "fold D xs (mem, fl) = ((\<lambda>p. if p \<in> set xs then None else mem p), rev xs @ fl)"
  proof (induction xs arbitrary: mem fl)
    case Nil
    show ?case by simp
  next
    case (Cons x xs)
    have "fold D (x # xs) (mem, fl) = fold D xs (mem (x := None), x # fl)"
      by (simp only: fold_simps step)
    also have "\<dots> = ((\<lambda>p. if p \<in> set xs then None else (mem (x := None)) p), rev xs @ x # fl)"
      by (rule Cons.IH)
    also have "(\<lambda>p. if p \<in> set xs then None else (mem (x := None)) p) =
               (\<lambda>p. if p \<in> set (x # xs) then None else mem p)" by auto
    finally show ?case by simp
  qed
  then show ?thesis by (simp only: D_def)
qed

lemma clear_ok:
  assumes inv: "cache_inv h c"
  shows "clear c =
           c \<lparr> m_set := (m_set c) \<lparr> m_buckets := replicate (m_nb_buckets (m_set c)) [],
                                     m_size := 0 \<rparr>,
               entries := (\<lambda>_. None),
               m_pool := rev (elements (m_set c)) @ m_pool c \<rparr>"
    and "cache_inv h (clear c)"
proof -
  note tinv = cache_inv_table [OF inv]
  from tinv have len: "length (m_buckets (m_set c)) = m_nb_buckets (m_set c)"
    and nb: "0 < m_nb_buckets (m_set c)"
    and dist: "distinct (elements (m_set c))"
    by (simp_all add: table_inv_def buckets_inv_def elements_def)
  have mem: "(\<lambda>p. if p \<in> set (elements (m_set c)) then None else entries c p) = (\<lambda>_. None)"
  proof (rule ext)
    fix p
    show "(if p \<in> set (elements (m_set c)) then None else entries c p) = None"
      using cache_inv_chained [OF inv, of p] by (cases "entries c p") auto
  qed
  let ?c' = "c \<lparr> m_set := (m_set c) \<lparr> m_buckets := replicate (m_nb_buckets (m_set c)) [],
                                     m_size := 0 \<rparr>,
               entries := (\<lambda>_. None),
               m_pool := rev (elements (m_set c)) @ m_pool c \<rparr>"
  show eq: "clear c = ?c'"
    using len mem by (simp add: clear_def clear_and_dispose_def dispose_fold elements_def)
  have "cache_inv h ?c'"
  proof (rule cache_invI)
    show "table_inv (hash_cache_entry h) eq_cache_entry (entries ?c') (m_set ?c')"
      using buckets_inv_empty [OF nb] by (simp add: table_inv_def)
    show "entries ?c' p \<noteq> None \<longleftrightarrow> p \<in> set (elements (m_set ?c'))" for p
      by (simp add: elements_def)
    show "distinct (m_pool ?c')"
      using dist cache_inv_pool_distinct [OF inv] cache_inv_pool_disjoint [OF inv] by auto
    show "set (m_pool ?c') \<inter> set (elements (m_set ?c')) = {}" by (simp add: elements_def)
    show "m_size (m_set ?c') + length (m_pool ?c') = m_max_size ?c'"
      using cache_inv_balance [OF inv] table_inv_size [OF tinv] by simp
    show "0 < m_max_size ?c'" using cache_inv_max [OF inv] by simp
    show "distinct (map fst (m_lru_list ?c'))" using cache_inv_nodes [OF inv] by simp
    show "snd ` set (m_lru_list ?c') \<subseteq> set (m_pool ?c') \<union> set (elements (m_set ?c'))"
      using cache_inv_arena [OF inv] by auto
    show "(m_lru_cit e, p) \<in> set (m_lru_list ?c')" if "entries ?c' p = Some e" for p e
      using that by simp
  qed
  with eq show "cache_inv h (clear c)" by simp
qed

section \<open>The LRU list along a sequence of lookups\<close>

lemma last_access_append:
  "last_access (as @ [op]) x = (if x = op then Suc (length as) else last_access as x)"
  by (induction as) auto

lemma last_access_le: "last_access as x \<le> length as"
  by (induction as) auto

lemma last_access_pos: "x \<in> set as \<Longrightarrow> 0 < last_access as x"
  by (induction as) auto

lemma lru_model_snoc: "spec_lru_model cap (as @ [op]) = spec_lru_access cap op (spec_lru_model cap as)"
  by (simp add: spec_lru_model_def)

lemma lru_model_sorted:
  "sorted_wrt (\<lambda>x y. last_access as x < last_access as y) (spec_lru_model cap as) \<and>
   set (spec_lru_model cap as) \<subseteq> set as"
proof (induction as rule: rev_induct)
  case Nil
  show ?case by (simp add: spec_lru_model_def)
next
  case (snoc op as)
  define l where "l = spec_lru_model cap as"
  have sorted: "sorted_wrt (\<lambda>x y. last_access as x < last_access as y) l"
    and sub: "set l \<subseteq> set as"
    using snoc by (simp_all add: l_def)
  have old: "\<And>x. x \<noteq> op \<Longrightarrow> last_access (as @ [op]) x = last_access as x"
    by (simp add: last_access_append)
  have new: "\<And>x. x \<noteq> op \<Longrightarrow> last_access (as @ [op]) x < last_access (as @ [op]) op"
    using last_access_le [of as] by (simp add: last_access_append less_Suc_eq_le)
  have keep: "sorted_wrt (\<lambda>x y. last_access (as @ [op]) x < last_access (as @ [op]) y) k"
    if "sorted_wrt (\<lambda>x y. last_access as x < last_access as y) k" "op \<notin> set k" for k
    using that(1)
  proof (rule sorted_wrt_mono_rel [rotated])
    fix x y assume "x \<in> set k" "y \<in> set k" "last_access as x < last_access as y"
    with that(2) show "last_access (as @ [op]) x < last_access (as @ [op]) y"
      by (metis old)
  qed
  have tl: "sorted_wrt (\<lambda>x y. last_access as x < last_access as y) (tl l)"
    using sorted by (cases l) simp_all
  have tlsub: "set (tl l) \<subseteq> set l" by (cases l) auto
  have step: "sorted_wrt (\<lambda>x y. last_access (as @ [op]) x < last_access (as @ [op]) y) (k @ [op])"
    if "sorted_wrt (\<lambda>x y. last_access as x < last_access as y) k" "op \<notin> set k" for k
  proof -
    have "\<forall>x\<in>set k. last_access (as @ [op]) x < last_access (as @ [op]) op"
    proof
      fix x assume "x \<in> set k"
      with that(2) have "x \<noteq> op" by auto
      then show "last_access (as @ [op]) x < last_access (as @ [op]) op" by (rule new)
    qed
    with keep [OF that] show ?thesis by (simp add: sorted_wrt_append)
  qed
  show ?case
  proof (cases "op \<in> set l")
    case True
    have "sorted_wrt (\<lambda>x y. last_access as x < last_access as y) (filter (\<lambda>x. x \<noteq> op) l)"
      by (rule sorted_wrt_filter [OF sorted])
    from step [OF this] True sub show ?thesis
      by (auto simp: lru_model_snoc spec_lru_access_def l_def [symmetric])
  next
    case False
    then have ntl: "op \<notin> set (tl l)" using tlsub by blast
    from step [OF sorted False] step [OF tl ntl] False sub tlsub show ?thesis
      by (auto simp: lru_model_snoc spec_lru_access_def l_def [symmetric])
  qed
qed

lemma lru_model_front_least:
  assumes "spec_lru_model cap as = x # rest" and "y \<in> set rest"
  shows "last_access as x < last_access as y"
  using lru_model_sorted [of as cap] assms by simp


lemma map_filter_filter_ops:
  assumes "\<And>node. node \<in> set l \<Longrightarrow> P node = (g node \<noteq> Some op)"
  shows "List.map_filter g (filter P l) = filter (\<lambda>x. x \<noteq> op) (List.map_filter g l)"
  using assms by (induction l) (auto split: option.splits)

lemma map_filter_cong_set:
  assumes "\<And>node. node \<in> set l \<Longrightarrow> g node = g' node"
  shows "List.map_filter g l = List.map_filter g' l"
  using assms by (induction l) (auto split: option.splits)

lemma map_filter_snoc:
  "List.map_filter g (l @ [x]) = List.map_filter g l @ (case g x of None \<Rightarrow> [] | Some y \<Rightarrow> [y])"
  by (simp add: List.map_filter_def split: option.splits)

lemma map_filter_length:
  assumes "\<And>x. x \<in> set l \<Longrightarrow> g x \<noteq> None"
  shows "length (List.map_filter g l) = length l"
  using assms by (induction l) (auto split: option.splits)

lemma map_filter_set: "set (List.map_filter g l) = {y. \<exists>x\<in>set l. g x = Some y}"
  by (induction l) (auto split: option.splits)

lemma lru_exact_node:
  assumes inv: "cache_inv h c" and ex: "lru_exact c" and node: "node \<in> set (m_lru_list c)"
  shows "\<exists>e. entries c (snd node) = Some e"
proof -
  have "snd node \<in> snd ` set (m_lru_list c)" using node by (rule imageI)
  then have "snd node \<in> set (elements (m_set c))" using ex by (simp add: lru_exact_def)
  then show ?thesis by (rule cache_inv_constructed [OF inv])
qed

lemma lru_length:
  assumes inv: "cache_inv h c" and ex: "lru_exact c"
  shows "length (m_lru_list c) = m_size (m_set c)"
    and "length (lru_operations c) = m_size (m_set c)"
proof -
  have d: "distinct (map snd (m_lru_list c))"
    and s: "set (map snd (m_lru_list c)) = set (elements (m_set c))"
    using ex by (simp_all add: lru_exact_def)
  have de: "distinct (elements (m_set c))"
    using buckets_inv_distinct [OF cache_inv_table [OF inv, unfolded table_inv_def]]
    by (simp add: elements_def)
  have "length (m_lru_list c) = length (map snd (m_lru_list c))" by simp
  also have "\<dots> = card (set (map snd (m_lru_list c)))" by (rule distinct_card [OF d, symmetric])
  also have "\<dots> = card (set (elements (m_set c)))" by (simp only: s)
  also have "\<dots> = length (elements (m_set c))" by (rule distinct_card [OF de])
  also have "\<dots> = m_size (m_set c)"
    by (rule table_inv_size [OF cache_inv_table [OF inv], symmetric])
  finally show len: "length (m_lru_list c) = m_size (m_set c)" .
  have "length (lru_operations c) = length (m_lru_list c)"
    unfolding lru_operations_def
  proof (rule map_filter_length)
    fix node assume "node \<in> set (m_lru_list c)"
    from lru_exact_node [OF inv ex this]
    show "map_option m_operation (entries c (snd node)) \<noteq> None" by auto
  qed
  with len show "length (lru_operations c) = m_size (m_set c)" by simp
qed

lemma lru_operations_set:
  assumes inv: "cache_inv h c"
  shows "op \<in> set (lru_operations c) \<longleftrightarrow> (\<exists>p e. entries c p = Some e \<and> m_operation e = op)"
proof
  assume "op \<in> set (lru_operations c)"
  then obtain node where "node \<in> set (m_lru_list c)"
    "map_option m_operation (entries c (snd node)) = Some op"
    by (auto simp: lru_operations_def map_filter_set)
  then show "\<exists>p e. entries c p = Some e \<and> m_operation e = op" by auto
next
  assume "\<exists>p e. entries c p = Some e \<and> m_operation e = op"
  then obtain p e where e: "entries c p = Some e" "m_operation e = op" by blast
  from cache_inv_cit [OF inv e(1)] have "(m_lru_cit e, p) \<in> set (m_lru_list c)" .
  moreover have "map_option m_operation (entries c (snd (m_lru_cit e, p))) = Some op"
    using e by simp
  ultimately show "op \<in> set (lru_operations c)"
    unfolding lru_operations_def map_filter_set by blast
qed

lemma hit_lru:
  assumes inv: "cache_inv h c" and ex: "lru_exact c" and e: "entries c p = Some e"
  defines "c' \<equiv> c \<lparr> m_stats := (m_stats c) \<lparr> hits := hits (m_stats c) + 1 \<rparr>,
                      m_lru_list := filter (\<lambda>node. fst node \<noteq> m_lru_cit e) (m_lru_list c) @
                                    [(m_lru_cit e, p)] \<rparr>"
  shows "lru_exact c'"
    and "lru_operations c' =
           filter (\<lambda>x. x \<noteq> m_operation e) (lru_operations c) @ [m_operation e]"
proof -
  define l where "l = m_lru_list c"
  define n where "n = m_lru_cit e"
  have np: "(n, p) \<in> set l" using cache_inv_cit [OF inv e] by (simp add: l_def n_def)
  have df: "distinct (map fst l)" using cache_inv_nodes [OF inv] by (simp add: l_def)
  have ds: "distinct (map snd l)" using ex by (simp add: lru_exact_def l_def)
  have injf: "inj_on fst (set l)" using df by (simp add: distinct_map)
  have injs: "inj_on snd (set l)" using ds by (simp add: distinct_map)
  have key1: "(fst node \<noteq> n) = (snd node \<noteq> p)" if "node \<in> set l" for node
  proof -
    have "fst node = n \<Longrightarrow> node = (n, p)" using inj_onD [OF injf _ that np] by simp
    moreover have "snd node = p \<Longrightarrow> node = (n, p)" using inj_onD [OF injs _ that np] by simp
    ultimately show ?thesis by (cases node) auto
  qed
  have set': "set (filter (\<lambda>node. fst node \<noteq> n) l @ [(n, p)]) = set l"
    by (rule splice_set [OF df np])
  have "distinct (map snd (filter (\<lambda>node. fst node \<noteq> n) l))"
    using ds by (rule distinct_map_filter)
  moreover have "p \<notin> snd ` set (filter (\<lambda>node. fst node \<noteq> n) l)"
    using key1 by auto
  ultimately have ds': "distinct (map snd (filter (\<lambda>node. fst node \<noteq> n) l @ [(n, p)]))"
    by simp
  have "snd ` set (filter (\<lambda>node. fst node \<noteq> n) l @ [(n, p)]) = set (elements (m_set c))"
    using ex unfolding set' by (simp add: lru_exact_def l_def)
  with ds' show "lru_exact c'"
    by (simp add: lru_exact_def c'_def l_def n_def)
  define g where "g = (\<lambda>node :: nat \<times> addr. map_option m_operation (entries c (snd node)))"
  have key2: "(fst node \<noteq> n) = (g node \<noteq> Some (m_operation e))" if "node \<in> set l" for node
  proof -
    from lru_exact_node [OF inv ex that [unfolded l_def]]
    obtain e' where e': "entries c (snd node) = Some e'" by blast
    have "m_operation e' = m_operation e \<longleftrightarrow> snd node = p"
      using cache_inv_unique_op [OF inv e' e] e e' by auto
    then show ?thesis using key1 [OF that] e' by (simp add: g_def)
  qed
  have "lru_operations c' = List.map_filter g (filter (\<lambda>node. fst node \<noteq> n) l @ [(n, p)])"
    by (simp add: lru_operations_def c'_def g_def l_def n_def)
  also have "\<dots> = List.map_filter g (filter (\<lambda>node. fst node \<noteq> n) l) @ [m_operation e]"
    using e by (simp add: map_filter_snoc g_def)
  also have "List.map_filter g (filter (\<lambda>node. fst node \<noteq> n) l) =
      filter (\<lambda>x. x \<noteq> m_operation e) (List.map_filter g l)"
    by (rule map_filter_filter_ops) (rule key2)
  also have "List.map_filter g l = lru_operations c"
    by (simp add: lru_operations_def g_def l_def)
  finally show "lru_operations c' =
           filter (\<lambda>x. x \<noteq> m_operation e) (lru_operations c) @ [m_operation e]" .
qed


lemma lru_exact_stats [simp]: "lru_exact (c \<lparr> m_stats := st \<rparr>) = lru_exact c"
  by (simp add: lru_exact_def)

lemma lru_operations_stats [simp]: "lru_operations (c \<lparr> m_stats := st \<rparr>) = lru_operations c"
  by (simp add: lru_operations_def)

lemma evict_lru:
  assumes ex: "lru_exact c"
    and l: "m_lru_list c = (n, entry) # m_lru_list c2"
    and e: "entries c entry = Some e"
    and mem: "entries c2 = (entries c) (entry := None)"
    and els: "set (elements (m_set c2)) = set (elements (m_set c)) - {entry}"
  shows "lru_exact c2" and "lru_operations c = m_operation e # lru_operations c2"
proof -
  have ds: "distinct (map snd (m_lru_list c2))" and new: "entry \<notin> snd ` set (m_lru_list c2)"
    and s: "insert entry (snd ` set (m_lru_list c2)) = set (elements (m_set c))"
    using ex unfolding lru_exact_def l by simp_all
  from s new els have "snd ` set (m_lru_list c2) = set (elements (m_set c2))" by auto
  with ds show "lru_exact c2" by (simp add: lru_exact_def)
  have same: "List.map_filter (\<lambda>node. map_option m_operation (entries c2 (snd node))) (m_lru_list c2) =
      List.map_filter (\<lambda>node. map_option m_operation (entries c (snd node))) (m_lru_list c2)"
  proof (rule map_filter_cong_set)
    fix node assume "node \<in> set (m_lru_list c2)"
    with new have "snd node \<noteq> entry" by auto
    then show "map_option m_operation (entries c2 (snd node)) =
        map_option m_operation (entries c (snd node))" by (simp add: mem)
  qed
  show "lru_operations c = m_operation e # lru_operations c2"
    unfolding lru_operations_def l same using e by simp
qed

lemma store_lru:
  assumes ex: "lru_exact c2" and new: "entry \<notin> set (elements (m_set c2))"
    and l: "m_lru_list c' = m_lru_list c2 @ [(k, entry)]"
    and mem: "entries c' = (entries c2)
       (entry \<mapsto> \<lparr> m_operation = op, m_result = res, m_lru_cit = k \<rparr>)"
    and els: "set (elements (m_set c')) = insert entry (set (elements (m_set c2)))"
  shows "lru_exact c'" and "lru_operations c' = lru_operations c2 @ [op]"
proof -
  have ds: "distinct (map snd (m_lru_list c2))"
    and s: "snd ` set (m_lru_list c2) = set (elements (m_set c2))"
    using ex by (simp_all add: lru_exact_def)
  from s new have new': "entry \<notin> snd ` set (m_lru_list c2)" by simp
  show "lru_exact c'"
    unfolding lru_exact_def l els using ds s new' by simp
  have same: "List.map_filter (\<lambda>node. map_option m_operation (entries c' (snd node))) (m_lru_list c2) =
      List.map_filter (\<lambda>node. map_option m_operation (entries c2 (snd node))) (m_lru_list c2)"
  proof (rule map_filter_cong_set)
    fix node assume "node \<in> set (m_lru_list c2)"
    with new' have "snd node \<noteq> entry" by auto
    then show "map_option m_operation (entries c' (snd node)) =
        map_option m_operation (entries c2 (snd node))" by (simp add: mem)
  qed
  show "lru_operations c' = lru_operations c2 @ [op]"
    unfolding lru_operations_def l map_filter_snoc same by (simp add: mem)
qed

lemma miss_lru:
  assumes inv: "cache_inv h c" and ex: "lru_exact c"
    and acc: "apply_filters Filters op = Inr True"
    and none0: "\<forall>p e. entries c p = Some e \<longrightarrow> m_operation e \<noteq> op"
    and val: "f op = Inr res"
  shows "\<exists>c'. cache_lookup h Filters (pure_run f) op c = Inr (Inr res, c') \<and> lru_exact c' \<and>
              lru_operations c' = spec_lru_access (m_max_size c) op (lru_operations c)"
proof -
  from lookup_miss_value [where f = f and res = res, OF inv acc none0 val]
  obtain c1 c2 c' entry n e where st:
    "c1 = c \<lparr> m_stats := (m_stats c) \<lparr> misses := misses (m_stats c) + 1 \<rparr> \<rparr>"
    "cache_lookup h Filters (pure_run f) op c = Inr (Inr res, c')"
    "cache_inv h c2"
    "m_pool c2 = entry # m_pool c'"
    "m_lru_list c' = m_lru_list c2 @ [(fresh_node (m_lru_list c2), entry)]"
    "entries c' = (entries c2)
       (entry \<mapsto> \<lparr> m_operation = op, m_result = res, m_lru_cit = fresh_node (m_lru_list c2) \<rparr>)"
    "set (elements (m_set c')) = insert entry (set (elements (m_set c2)))"
    "m_size (m_set c) \<noteq> m_max_size c \<Longrightarrow> c2 = c1"
    "m_size (m_set c) = m_max_size c \<Longrightarrow> m_lru_list c = (n, entry) # m_lru_list c2"
    "m_size (m_set c) = m_max_size c \<Longrightarrow> entries c entry = Some e"
    "m_size (m_set c) = m_max_size c \<Longrightarrow> entries c2 = (entries c) (entry := None)"
    "m_size (m_set c) = m_max_size c \<Longrightarrow>
       set (elements (m_set c2)) = set (elements (m_set c)) - {entry}"
    by metis
  have absent: "op \<notin> set (lru_operations c)"
    using none0 by (simp add: lru_operations_set [OF inv])
  have len: "length (lru_operations c) = m_size (m_set c)" by (rule lru_length(2) [OF inv ex])
  have two: "lru_exact c2 \<and>
      lru_operations c2 =
        (if length (lru_operations c) = m_max_size c then tl (lru_operations c)
         else lru_operations c)"
  proof (cases "m_size (m_set c) = m_max_size c")
    case True
    from evict_lru [OF ex st(9) [OF True] st(10) [OF True] st(11) [OF True] st(12) [OF True]]
    show ?thesis using True len by simp
  next
    case False
    with st(8) st(1) have "c2 = c \<lparr> m_stats := (m_stats c) \<lparr> misses := misses (m_stats c) + 1 \<rparr> \<rparr>"
      by simp
    then show ?thesis using ex False len by simp
  qed
  have "entry \<in> set (m_pool c2)" by (simp add: st(4))
  with cache_inv_pool_disjoint [OF st(3)] have new: "entry \<notin> set (elements (m_set c2))" by blast
  from two have ex2: "lru_exact c2" by simp
  note s = store_lru [OF ex2 new st(5) st(6) st(7)]
  have "lru_operations c' = spec_lru_access (m_max_size c) op (lru_operations c)"
    using s(2) two absent by (simp add: spec_lru_access_def)
  with st(2) s(1) show ?thesis by blast
qed

lemma lookup_step:
  assumes inv: "cache_inv h c" and ex: "lru_exact c" and res: "results_of f c"
  shows "\<exists>r c'. cache_lookup h Filters (pure_run f) op c = Inr (r, c') \<and>
           cache_inv h c' \<and> lru_exact c' \<and> results_of f c' \<and> m_max_size c' = m_max_size c \<and>
           lru_operations c' =
             (if apply_filters Filters op = Inr True \<and> \<not> isl (f op)
              then spec_lru_access (m_max_size c) op (lru_operations c)
              else lru_operations c)"
proof -
  from lookup_preserves [OF inv res, of Filters op] obtain c' where
    lk: "cache_lookup h Filters (pure_run f) op c =
           Inr (case apply_filters Filters op of Inl e \<Rightarrow> Inl e | Inr _ \<Rightarrow> f op, c')"
    and inv': "cache_inv h c'" and res': "results_of f c'"
    and mx: "m_max_size c' = m_max_size c" by blast
  have "lru_exact c' \<and>
        lru_operations c' =
             (if apply_filters Filters op = Inr True \<and> \<not> isl (f op)
              then spec_lru_access (m_max_size c) op (lru_operations c)
              else lru_operations c)"
  proof (cases "apply_filters Filters op")
    case (Inl e)
    then have "cache_lookup h Filters (pure_run f) op c = Inr (Inl e, c)"
      by (simp add: cache_lookup_def)
    with lk have "c' = c" by simp
    with ex Inl show ?thesis by simp
  next
    case (Inr b)
    show ?thesis
    proof (cases b)
      case False
      with Inr have "cache_lookup h Filters (pure_run f) op c =
          Inr (f op, c \<lparr> m_stats := (m_stats c) \<lparr> filtered := filtered (m_stats c) + 1 \<rparr> \<rparr>)"
        by (simp add: cache_lookup_def pure_run_def)
      with lk have "c' = c \<lparr> m_stats := (m_stats c) \<lparr> filtered := filtered (m_stats c) + 1 \<rparr> \<rparr>"
        by simp
      with ex Inr False show ?thesis by simp
    next
      case True
      with Inr have acc: "apply_filters Filters op = Inr True" by simp
      show ?thesis
      proof (cases "\<exists>p e. entries c p = Some e \<and> m_operation e = op")
        case True
        then obtain p e where e: "entries c p = Some e" "m_operation e = op" by blast
        have fo: "f op = Inr (m_result e)" using res e unfolding results_of_def by blast
        from lookup_hit [OF inv acc e, of "pure_run f"] lk
        have c': "c' = c \<lparr> m_stats := (m_stats c) \<lparr> hits := hits (m_stats c) + 1 \<rparr>,
                    m_lru_list := filter (\<lambda>node. fst node \<noteq> m_lru_cit e) (m_lru_list c) @
                                  [(m_lru_cit e, p)] \<rparr>" by simp
        have inn: "op \<in> set (lru_operations c)"
          using e by (auto simp: lru_operations_set [OF inv])
        from hit_lru [OF inv ex e(1)] c' e(2) inn acc fo show ?thesis
          by (simp add: spec_lru_access_def)
      next
        case False
        then have none0: "\<forall>p e. entries c p = Some e \<longrightarrow> m_operation e \<noteq> op" by blast
        show ?thesis
        proof (cases "f op")
          case (Inl x)
          from miss_throw [where f = f, OF inv acc none0 Inl] lk
          have "c' = c \<lparr> m_stats := (m_stats c) \<lparr> misses := misses (m_stats c) + 1 \<rparr> \<rparr>"
            by simp
          with ex Inl show ?thesis by simp
        next
          case (Inr r)
          from miss_lru [where f = f, OF inv ex acc none0 Inr] lk acc Inr show ?thesis by auto
        qed
      qed
    qed
  qed
  with lk inv' res' mx show ?thesis by blast
qed

lemma accesses_Cons:
  "accesses Filters f (op # ops) =
     (if apply_filters Filters op = Inr True \<and> \<not> isl (f op) then op # accesses Filters f ops
      else accesses Filters f ops)"
  by (simp add: accesses_def)

lemma lookups_trace:
  assumes "cache_inv h c" and "lru_exact c" and "results_of f c"
  shows "\<exists>c'. cache_lookups h Filters f ops c = Inr c' \<and>
           cache_inv h c' \<and> lru_exact c' \<and> results_of f c' \<and> m_max_size c' = m_max_size c \<and>
           lru_operations c' =
             fold (spec_lru_access (m_max_size c)) (accesses Filters f ops) (lru_operations c)"
  using assms
proof (induction ops arbitrary: c)
  case Nil
  then show ?case by (simp add: accesses_def)
next
  case (Cons op ops)
  from lookup_step [OF Cons.prems, of Filters op] obtain r c1 where
    lk: "cache_lookup h Filters (pure_run f) op c = Inr (r, c1)"
    and inv1: "cache_inv h c1" and ex1: "lru_exact c1" and res1: "results_of f c1"
    and mx1: "m_max_size c1 = m_max_size c"
    and ops1: "lru_operations c1 =
             (if apply_filters Filters op = Inr True \<and> \<not> isl (f op)
              then spec_lru_access (m_max_size c) op (lru_operations c)
              else lru_operations c)" by blast
  from Cons.IH [OF inv1 ex1 res1] obtain c' where
    "cache_lookups h Filters f ops c1 = Inr c'" "cache_inv h c'" "lru_exact c'"
    "results_of f c'" "m_max_size c' = m_max_size c1"
    "lru_operations c' =
       fold (spec_lru_access (m_max_size c1)) (accesses Filters f ops) (lru_operations c1)" by blast
  with lk mx1 ops1 show ?case by (simp add: accesses_Cons)
qed

lemma lookups_from_ctor:
  assumes ctor: "cache sz = Inr c0"
  shows "\<exists>c. cache_lookups h Filters f ops c0 = Inr c \<and>
           cache_inv h c \<and> lru_exact c \<and> results_of f c \<and> m_max_size c = m_max_size c0 \<and>
           lru_operations c = spec_lru_model (m_max_size c0) (accesses Filters f ops)"
proof -
  have "lru_operations c0 = []"
    by (simp add: lru_operations_def cache_ctor(4) [OF ctor])
  with lookups_trace [OF cache_ctor(1) [OF ctor] cache_ctor(2) [OF ctor] cache_ctor(3) [OF ctor],
      where h = h and f = f and Filters = Filters and ops = ops]
  show ?thesis by (simp add: spec_lru_model_def)
qed

section \<open>A miss whose evaluation looks up the cache again\<close>

text \<open>
  The end of a miss, from the cache that the evaluation leaves: the clean-up when that cache
  is full, then the new entry.
\<close>

lemma miss_tail:
  assumes inv1: "cache_inv h c1"
    and none1: "\<forall>p e. entries c1 p = Some e \<longrightarrow> m_operation e \<noteq> op"
  shows "\<exists>c2 c' entry.
      (if m_size (m_set c1) = m_max_size c1 then evict h c1 else Inr c1) = Inr c2 \<and>
      store op res (h op AND (m_nb_buckets (m_set c1) - 1)) c2 = Inr c' \<and>
      cache_inv h c' \<and> entries c2 entry = None \<and>
      (\<forall>p e. entries c2 p = Some e \<longrightarrow> entries c1 p = Some e) \<and>
      entries c' = (entries c2)
        (entry \<mapsto> \<lparr> m_operation = op, m_result = res, m_lru_cit = fresh_node (m_lru_list c2) \<rparr>) \<and>
      m_lru_list c' = m_lru_list c2 @ [(fresh_node (m_lru_list c2), entry)] \<and>
      m_stats c' = m_stats c2 \<and> m_max_size c' = m_max_size c1 \<and>
      m_size (m_set c') \<le> m_max_size c'"
proof -
  define pos where "pos = h op AND (m_nb_buckets (m_set c1) - 1)"
  have tail: "\<exists>c' entry.
      store op res pos c2 = Inr c' \<and> cache_inv h c' \<and> entries c2 entry = None \<and>
      entries c' = (entries c2)
        (entry \<mapsto> \<lparr> m_operation = op, m_result = res, m_lru_cit = fresh_node (m_lru_list c2) \<rparr>) \<and>
      m_lru_list c' = m_lru_list c2 @ [(fresh_node (m_lru_list c2), entry)] \<and>
      m_stats c' = m_stats c2 \<and> m_max_size c' = m_max_size c2"
    if inv2: "cache_inv h c2" and room: "m_pool c2 \<noteq> []"
      and none2: "\<forall>p e. entries c2 p = Some e \<longrightarrow> m_operation e \<noteq> op"
      and nb2: "m_nb_buckets (m_set c2) = m_nb_buckets (m_set c1)" for c2
  proof -
    from store_ok [OF inv2 room none2, where res = res] obtain entry free_list where st:
      "entries c2 entry = None"
      "store op res pos c2 =
         Inr (c2 \<lparr> m_pool := free_list,
                   entries := (entries c2)
                     (entry \<mapsto> \<lparr> m_operation = op, m_result = res,
                                  m_lru_cit = fresh_node (m_lru_list c2) \<rparr>),
                   m_lru_list := m_lru_list c2 @ [(fresh_node (m_lru_list c2), entry)],
                   m_set := insert_commit entry pos (m_set c2) \<rparr>)"
      "cache_inv h
         (c2 \<lparr> m_pool := free_list,
               entries := (entries c2)
                 (entry \<mapsto> \<lparr> m_operation = op, m_result = res,
                              m_lru_cit = fresh_node (m_lru_list c2) \<rparr>),
               m_lru_list := m_lru_list c2 @ [(fresh_node (m_lru_list c2), entry)],
               m_set := insert_commit entry pos (m_set c2) \<rparr>)"
      unfolding nb2 pos_def by blast
    show ?thesis
      apply (rule exI [of _ "c2 \<lparr> m_pool := free_list,
               entries := (entries c2)
                 (entry \<mapsto> \<lparr> m_operation = op, m_result = res,
                              m_lru_cit = fresh_node (m_lru_list c2) \<rparr>),
               m_lru_list := m_lru_list c2 @ [(fresh_node (m_lru_list c2), entry)],
               m_set := insert_commit entry pos (m_set c2) \<rparr>"])
      apply (rule exI [of _ entry])
      using st by simp
  qed
  have bound: "m_size (m_set c') \<le> m_max_size c'" if "cache_inv h c'" for c'
    using cache_inv_balance [OF that] by simp
  show ?thesis
  proof (cases "m_size (m_set c1) = m_max_size c1")
    case True
    from evict_ok [OF inv1 True] obtain n oldest lru e tbl where ev:
      "m_nb_buckets tbl = m_nb_buckets (m_set c1)"
      "evict h c1 =
         Inr (c1 \<lparr> m_set := tbl, entries := (entries c1) (oldest := None), m_pool := [oldest],
                   m_lru_list := lru,
                   m_stats := (m_stats c1) \<lparr> discarded := discarded (m_stats c1) + 1 \<rparr> \<rparr>)"
      "cache_inv h
         (c1 \<lparr> m_set := tbl, entries := (entries c1) (oldest := None), m_pool := [oldest],
               m_lru_list := lru,
               m_stats := (m_stats c1) \<lparr> discarded := discarded (m_stats c1) + 1 \<rparr> \<rparr>)"
      by blast
    define c2 where "c2 = c1 \<lparr> m_set := tbl, entries := (entries c1) (oldest := None),
       m_pool := [oldest], m_lru_list := lru,
       m_stats := (m_stats c1) \<lparr> discarded := discarded (m_stats c1) + 1 \<rparr> \<rparr>"
    have inv2: "cache_inv h c2" using ev(3) by (simp add: c2_def)
    have room: "m_pool c2 \<noteq> []" by (simp add: c2_def)
    have sub: "\<forall>p e. entries c2 p = Some e \<longrightarrow> entries c1 p = Some e"
      by (auto simp: c2_def split: if_splits)
    have none2: "\<forall>p e. entries c2 p = Some e \<longrightarrow> m_operation e \<noteq> op"
      using none1 sub by blast
    have nb2: "m_nb_buckets (m_set c2) = m_nb_buckets (m_set c1)"
      using ev(1) by (simp add: c2_def)
    have mx: "m_max_size c2 = m_max_size c1" by (simp add: c2_def)
    from tail [OF inv2 room none2 nb2] obtain c' entry where t:
      "store op res pos c2 = Inr c'" "cache_inv h c'" "entries c2 entry = None"
      "entries c' = (entries c2)
        (entry \<mapsto> \<lparr> m_operation = op, m_result = res, m_lru_cit = fresh_node (m_lru_list c2) \<rparr>)"
      "m_lru_list c' = m_lru_list c2 @ [(fresh_node (m_lru_list c2), entry)]"
      "m_stats c' = m_stats c2" "m_max_size c' = m_max_size c2" by blast
    have G: "(if m_size (m_set c1) = m_max_size c1 then evict h c1 else Inr c1) = Inr c2"
      using True ev(2) by (simp add: c2_def)
    show ?thesis
      apply (rule exI [of _ c2])
      apply (rule exI [of _ c'])
      apply (rule exI [of _ entry])
      using G t sub mx bound [OF t(2)] unfolding pos_def by simp
  next
    case False
    have room: "m_pool c1 \<noteq> []" using cache_inv_balance [OF inv1] False by auto
    from tail [OF inv1 room none1 refl] obtain c' entry where t:
      "store op res pos c1 = Inr c'" "cache_inv h c'" "entries c1 entry = None"
      "entries c' = (entries c1)
        (entry \<mapsto> \<lparr> m_operation = op, m_result = res, m_lru_cit = fresh_node (m_lru_list c1) \<rparr>)"
      "m_lru_list c' = m_lru_list c1 @ [(fresh_node (m_lru_list c1), entry)]"
      "m_stats c' = m_stats c1" "m_max_size c' = m_max_size c1" by blast
    show ?thesis
      apply (rule exI [of _ c1])
      apply (rule exI [of _ c'])
      apply (rule exI [of _ entry])
      using False t bound [OF t(2)] unfolding pos_def by simp
  qed
qed

lemma lookup_miss_run:
  assumes inv: "cache_inv h c" and acc: "apply_filters Filters op = Inr True"
    and none0: "\<forall>p e. entries c p = Some e \<longrightarrow> m_operation e \<noteq> op"
    and ev: "run op (c \<lparr> m_stats := (m_stats c) \<lparr> misses := misses (m_stats c) + 1 \<rparr> \<rparr>) =
               (Inr res, c1)"
    and inv1: "cache_inv h c1"
    and nb: "m_nb_buckets (m_set c1) = m_nb_buckets (m_set c)"
    and none1: "\<forall>p e. entries c1 p = Some e \<longrightarrow> m_operation e \<noteq> op"
  shows "\<exists>c2 c' entry cit.
      (if m_size (m_set c1) = m_max_size c1 then evict h c1 else Inr c1) = Inr c2 \<and>
      cache_lookup h Filters run op c = Inr (Inr res, c') \<and>
      cache_inv h c' \<and> entries c2 entry = None \<and>
      entries c' = (entries c2)
        (entry \<mapsto> \<lparr> m_operation = op, m_result = res, m_lru_cit = cit \<rparr>) \<and>
      m_lru_list c' = m_lru_list c2 @ [(cit, entry)] \<and>
      m_stats c' = m_stats c2 \<and> m_max_size c' = m_max_size c1 \<and>
      m_size (m_set c') \<le> m_max_size c' \<and>
      (\<forall>f. results_of f c1 \<longrightarrow> f op = Inr res \<longrightarrow> results_of f c')"
proof -
  have probe: "insert_check (h op) (\<lambda>rhs. op = m_operation rhs) (entries c) (m_set c) =
      Inr (None, h op AND (m_nb_buckets (m_set c1) - 1))"
    unfolding nb by (rule probe_miss [OF inv none0])
  from miss_tail [OF inv1 none1, where res = res] obtain c2 c' entry where t:
    "(if m_size (m_set c1) = m_max_size c1 then evict h c1 else Inr c1) = Inr c2"
    "store op res (h op AND (m_nb_buckets (m_set c1) - 1)) c2 = Inr c'"
    "cache_inv h c'" "entries c2 entry = None"
    "\<forall>p e. entries c2 p = Some e \<longrightarrow> entries c1 p = Some e"
    "entries c' = (entries c2)
        (entry \<mapsto> \<lparr> m_operation = op, m_result = res, m_lru_cit = fresh_node (m_lru_list c2) \<rparr>)"
    "m_lru_list c' = m_lru_list c2 @ [(fresh_node (m_lru_list c2), entry)]"
    "m_stats c' = m_stats c2" "m_max_size c' = m_max_size c1"
    "m_size (m_set c') \<le> m_max_size c'" by blast
  have look: "cache_lookup h Filters run op c = Inr (Inr res, c')"
    using acc probe ev t(1,2) by (simp add: cache_lookup_def)
  have res: "\<forall>f. results_of f c1 \<longrightarrow> f op = Inr res \<longrightarrow> results_of f c'"
    using t(5) unfolding results_of_def t(6) by auto
  show ?thesis
    apply (rule exI [of _ c2])
    apply (rule exI [of _ c'])
    apply (rule exI [of _ entry])
    apply (rule exI [of _ "fresh_node (m_lru_list c2)"])
    using t look res by simp
qed


section \<open>The example values, evaluated\<close>

lemma next_power_of_2_4: "next_power_of_2 4 = 4"
  by code_simp

lemma cache_4: "cache 4 = Inr empty3"
proof -
  have "[0 ..< 3] = [0, 1, 2 :: nat]" by code_simp
  moreover have "replicate 4 ([] :: addr list) = [[], [], [], []]" by code_simp
  ultimately show ?thesis
    by (simp add: cache_def hash_table_def next_power_of_2_4 max_load_factor_def pool_def Let_def
        empty3_def)
qed

lemmas lookup_eval =
  cache_lookup_def insert_check_def evict_def erase_def store_def allocate_def deallocate_def
  lru_insert_end_def lru_splice_end_def fresh_node_def insert_commit_def pure_run_def
  id_hash_def times_ten_def hash_cache_entry_def eq_cache_entry_def seed_def

lemma suc_numerals:
  "Suc (Suc 0) = 2" "Suc (Suc (Suc 0)) = 3" "Suc (Suc (Suc (Suc 0))) = 4"
  "Suc (Suc (Suc (Suc (Suc 0)))) = 5" "Suc (Suc (Suc (Suc (Suc (Suc 0))))) = 6"
  by simp_all

lemma replicate_4: "replicate 4 ([] :: addr list) = [[], [], [], []]"
  by code_simp

lemma and_7_3: "(7 :: nat) AND 3 = 3"
  by code_simp

lemmas unicity_eval =
  make_def make_sized_def placement_new_def unique_table_allocate_def new_char_array_def
  size_t_def unify_def insert_ht_def
  insert_impl_def rehash_def load_factor_def ptr_def increment_at_def decrement_at_def
  increment_reference_counter_def decrement_reference_counter_def is_not_referenced_def
  release_def call_deletion_handler_def unique_table_erase_def erase_def ptr_assign_def
  ptr_copy_def unique_def hash_unique_def eq_unique_def id_hash_def

lemma and_small: "(1 :: nat) AND 1 = 1" "(2 :: nat) AND 1 = 0" "(1 :: nat) AND 3 = 1"
  "(2 :: nat) AND 3 = 2"
  by code_simp+


lemma and_9_3: "(9 :: nat) AND 3 = 1"
  by code_simp

lemma and_masks: "(5 :: nat) AND 3 = 1" "(5 :: nat) AND 7 = 5" "(9 :: nat) AND 7 = 1"
  "(7 :: nat) AND 7 = 7"
  by code_simp+

lemma replicate_8: "replicate 8 ([] :: addr list) = [[], [], [], [], [], [], [], []]"
  by code_simp

lemma and_13_3: "(13 :: nat) AND 3 = 1"
  by code_simp

section \<open>Unifying a duplicate\<close>


section \<open>The unification table keeps its invariant\<close>

lemma table_inv_unique_cong:
  assumes inv: "table_inv (hash_unique h) eq_unique deref t"
    and same: "\<And>z. z \<in> set (elements t) \<Longrightarrow>
                 map_option m_data (deref' z) = map_option m_data (deref z)"
  shows "table_inv (hash_unique h) eq_unique deref' t"
proof -
  note binv = inv [unfolded table_inv_def]
  have data: "\<exists>d'. deref' z = Some d' \<and> m_data d' = m_data d"
    if "z \<in> set (concat (m_buckets t))" "deref z = Some d" for z d
    using same [of z] that by (cases "deref' z") (auto simp: elements_def)
  have orig: "\<exists>d. deref z = Some d \<and> m_data d = m_data d'"
    if "z \<in> set (concat (m_buckets t))" "deref' z = Some d'" for z d'
    using same [of z] that by (cases "deref z") (auto simp: elements_def)
  show ?thesis
    unfolding table_inv_def
  proof (rule buckets_invI)
    show "length (m_buckets t) = m_nb_buckets t" by (rule buckets_inv_length [OF binv])
    show "0 < m_nb_buckets t" by (rule buckets_inv_pos [OF binv])
    show "distinct (concat (m_buckets t))" by (rule buckets_inv_distinct [OF binv])
    show "m_size t = length (concat (m_buckets t))" by (rule buckets_inv_size [OF binv])
  next
    fix i z assume i: "i < length (m_buckets t)" and z: "z \<in> set (m_buckets t ! i)"
    from buckets_inv_index [OF binv i z] obtain dz where
      dz: "deref z = Some dz" "hash_unique h dz AND (m_nb_buckets t - 1) = i" by blast
    have "z \<in> set (concat (m_buckets t))" using i z in_concat_nth [of z "m_buckets t"] by blast
    from data [OF this dz(1)] obtain d' where "deref' z = Some d'" "m_data d' = m_data dz"
      by blast
    with dz(2) show "\<exists>dz. deref' z = Some dz \<and> hash_unique h dz AND (m_nb_buckets t - 1) = i"
      by (simp add: hash_unique_def)
  next
    fix a b da db
    assume a: "a \<in> set (concat (m_buckets t))" and b: "b \<in> set (concat (m_buckets t))"
      and da: "deref' a = Some da" and db: "deref' b = Some db" and eq: "eq_unique da db"
    from orig [OF a da] obtain da0 where da0: "deref a = Some da0" "m_data da0 = m_data da"
      by blast
    from orig [OF b db] obtain db0 where db0: "deref b = Some db0" "m_data db0 = m_data db"
      by blast
    have "eq_unique da0 db0" using eq da0(2) db0(2) by (simp add: eq_unique_def)
    from buckets_inv_unique [OF binv a b da0(1) db0(1) this] show "a = b" .
  qed
qed

lemma ut_invI:
  assumes "table_inv (hash_unique h) eq_unique (objects t) (unique_table.m_set t)"
    and "\<And>x. objects t x \<noteq> None \<longleftrightarrow> x \<in> set (elements (unique_table.m_set t))"
    and "\<And>x. x \<in> set (elements (unique_table.m_set t)) \<Longrightarrow> blocks t x \<noteq> None"
    and "\<And>a. m_cache t = Some a \<Longrightarrow>
           a \<notin> set (elements (unique_table.m_set t)) \<and> blocks t a \<noteq> None"
  shows "ut_inv h t"
  using assms unfolding ut_inv_def by blast

lemma ut_inv_table:
  "ut_inv h t \<Longrightarrow> table_inv (hash_unique h) eq_unique (objects t) (unique_table.m_set t)"
  by (simp add: ut_inv_def)

lemma ut_inv_dom:
  "ut_inv h t \<Longrightarrow> objects t x \<noteq> None \<longleftrightarrow> x \<in> set (elements (unique_table.m_set t))"
  by (simp add: ut_inv_def)

lemma ut_inv_blocks:
  "ut_inv h t \<Longrightarrow> x \<in> set (elements (unique_table.m_set t)) \<Longrightarrow> blocks t x \<noteq> None"
  by (simp add: ut_inv_def)

lemma ut_inv_cache:
  "ut_inv h t \<Longrightarrow> m_cache t = Some a \<Longrightarrow>
     a \<notin> set (elements (unique_table.m_set t)) \<and> blocks t a \<noteq> None"
  by (simp add: ut_inv_def)

lemma ut_inv_unique:
  assumes inv: "ut_inv h t"
    and x: "x \<in> set (elements (unique_table.m_set t))" "objects t x = Some ux"
    and y: "y \<in> set (elements (unique_table.m_set t))" "objects t y = Some uy"
  shows "m_data ux = m_data uy \<longleftrightarrow> x = y"
proof
  assume "m_data ux = m_data uy"
  then have "eq_unique ux uy" by (simp add: eq_unique_def)
  from buckets_inv_unique [OF ut_inv_table [OF inv, unfolded table_inv_def] _ _ x(2) y(2) this]
    x(1) y(1)
  show "x = y" by (simp add: elements_def)
next
  assume "x = y"
  with x(2) y(2) show "m_data ux = m_data uy" by simp
qed


lemma allocate_ok:
  assumes inv: "ut_inv h t"
    and al: "unique_table_allocate sizeof_Unique extra fresh t = Inr (addr, t1)"
  shows "ut_inv h t1" and "objects t1 = objects t"
    and "unique_table.m_set t1 = unique_table.m_set t"
    and "addr \<notin> set (elements (unique_table.m_set t))"
    and "blocks t1 addr \<noteq> None" and "m_cache t1 \<noteq> Some addr"
proof -
  have "ut_inv h t1 \<and> objects t1 = objects t \<and>
      unique_table.m_set t1 = unique_table.m_set t \<and>
      addr \<notin> set (elements (unique_table.m_set t)) \<and>
      blocks t1 addr \<noteq> None \<and> m_cache t1 \<noteq> Some addr"
  proof (cases "\<exists>a. m_cache t = Some a \<and> size_t (sizeof_Unique + extra) \<le> m_cache_size t")
    case True
    then obtain a where a: "m_cache t = Some a" "size_t (sizeof_Unique + extra) \<le> m_cache_size t"
      by blast
    with al have r: "addr = a" "t1 = t \<lparr> m_cache := None, m_cache_size := 0 \<rparr>"
      by (simp_all add: unique_table_allocate_def)
    have "ut_inv h t1" using inv unfolding r ut_inv_def by simp
    with ut_inv_cache [OF inv a(1)] r show ?thesis by simp
  next
    case False
    then have "unique_table_allocate sizeof_Unique extra fresh t =
        new_char_array fresh (size_t (sizeof_Unique + extra)) t"
      by (auto simp: unique_table_allocate_def split: option.splits)
    with al have free: "blocks t fresh = None"
      and r: "addr = fresh"
        "t1 = t \<lparr> blocks := (blocks t) (fresh \<mapsto> size_t (sizeof_Unique + extra)) \<rparr>"
      by (auto simp: new_char_array_def split: if_splits)
    have nel: "fresh \<notin> set (elements (unique_table.m_set t))"
      using ut_inv_blocks [OF inv, of fresh] free by blast
    have ncache: "m_cache t \<noteq> Some fresh"
      using ut_inv_cache [OF inv, of fresh] free by blast
    have "ut_inv h t1"
    proof (rule ut_invI)
      show "table_inv (hash_unique h) eq_unique (objects t1) (unique_table.m_set t1)"
        using ut_inv_table [OF inv] by (simp add: r)
      show "objects t1 x \<noteq> None \<longleftrightarrow> x \<in> set (elements (unique_table.m_set t1))" for x
        using ut_inv_dom [OF inv, of x] by (simp add: r)
      show "blocks t1 x \<noteq> None" if "x \<in> set (elements (unique_table.m_set t1))" for x
        using ut_inv_blocks [OF inv, of x] that by (simp add: r)
      show "a \<notin> set (elements (unique_table.m_set t1)) \<and> blocks t1 a \<noteq> None"
        if "m_cache t1 = Some a" for a
        using ut_inv_cache [OF inv, of a] that by (simp add: r)
    qed
    with nel ncache r show ?thesis by simp
  qed
  then show "ut_inv h t1" and "objects t1 = objects t"
    and "unique_table.m_set t1 = unique_table.m_set t"
    and "addr \<notin> set (elements (unique_table.m_set t))"
    and "blocks t1 addr \<noteq> None" and "m_cache t1 \<noteq> Some addr"
    by simp_all
qed

lemma unify_ok:
  assumes inv: "ut_inv h t"
    and nel: "addr \<notin> set (elements (unique_table.m_set t))"
    and blk: "blocks t addr \<noteq> None" and ncache: "m_cache t \<noteq> Some addr"
    and un: "unify h sizeof_Unique addr extra (t \<lparr> objects := (objects t) (addr \<mapsto> ua) \<rparr>) =
               Inr (u, t2)"
  shows "ut_inv h t2"
    and "u \<in> set (elements (unique_table.m_set t2))"
    and "\<exists>uz. objects t2 u = Some uz \<and> m_data uz = m_data ua"
    and "\<And>y uy. y \<in> set (elements (unique_table.m_set t)) \<Longrightarrow> objects t y = Some uy \<Longrightarrow>
           m_data uy = m_data ua \<Longrightarrow> u = y"
    and "set (elements (unique_table.m_set t2)) =
           (if u = addr then insert addr (set (elements (unique_table.m_set t)))
            else set (elements (unique_table.m_set t)))"
    and "objects t2 u = Some ua \<or> objects t2 u = objects t u"
proof -
  define t0 where "t0 = t \<lparr> objects := (objects t) (addr \<mapsto> ua) \<rparr>"
  have none: "objects t addr = None" using ut_inv_dom [OF inv, of addr] nel by simp
  have old: "objects t0 z = objects t z" if "z \<in> set (elements (unique_table.m_set t))" for z
    using that nel by (auto simp: t0_def)
  have inv0: "table_inv (hash_unique h) eq_unique (objects t0) (unique_table.m_set t)"
    by (rule table_inv_cong [OF ut_inv_table [OF inv]]) (rule old)
  have x0: "objects t0 addr = Some ua" by (simp add: t0_def)
  from insert_ht_ok [OF unique_contract inv0 x0] obtain first second t1 tbl where
    ins: "insert_ht (hash_unique h) eq_unique (objects t0) addr (unique_table.m_set t) =
            Inr ((first, second), tbl)"
    and inv': "table_inv (hash_unique h) eq_unique (objects t0) tbl"
    and els: "set (elements tbl) = set (elements t1)"
    and cases: "if second
            then first = addr \<and> addr \<notin> set (elements (unique_table.m_set t)) \<and>
                 (\<forall>y\<in>set (elements (unique_table.m_set t)). \<forall>dy. objects t0 y = Some dy \<longrightarrow>
                    \<not> eq_unique ua dy) \<and>
                 set (elements t1) = insert addr (set (elements (unique_table.m_set t))) \<and>
                 m_size t1 = m_size (unique_table.m_set t) + 1
            else first \<in> set (elements (unique_table.m_set t)) \<and>
                 (\<exists>dy. objects t0 first = Some dy \<and> eq_unique ua dy) \<and>
                 t1 = unique_table.m_set t"
    by (elim exE conjE)
  have un0: "unify h sizeof_Unique addr extra t0 = Inr (u, t2)" using un by (simp add: t0_def)
  have "ut_inv h t2 \<and> u \<in> set (elements (unique_table.m_set t2)) \<and>
      (\<exists>uz. objects t2 u = Some uz \<and> m_data uz = m_data ua) \<and>
      (\<forall>y uy. y \<in> set (elements (unique_table.m_set t)) \<longrightarrow> objects t y = Some uy \<longrightarrow>
           m_data uy = m_data ua \<longrightarrow> u = y) \<and>
      set (elements (unique_table.m_set t2)) =
           (if u = addr then insert addr (set (elements (unique_table.m_set t)))
            else set (elements (unique_table.m_set t))) \<and>
      (objects t2 u = Some ua \<or> objects t2 u = objects t u)"
  proof (cases second)
    case True
    with cases have fresh: "\<forall>y\<in>set (elements (unique_table.m_set t)). \<forall>dy.
        objects t0 y = Some dy \<longrightarrow> \<not> eq_unique ua dy"
      and els1: "set (elements t1) = insert addr (set (elements (unique_table.m_set t)))"
      and fa: "first = addr"
      by simp_all
    from un0 ins True fa have r: "u = addr" "objects t2 = objects t0"
      "unique_table.m_set t2 = tbl" "blocks t2 = blocks t" "m_cache t2 = m_cache t"
      by (auto simp: unify_def Let_def t0_def)
    have els2: "set (elements (unique_table.m_set t2)) =
        insert addr (set (elements (unique_table.m_set t)))"
      by (simp add: r els els1)
    have "ut_inv h t2"
    proof (rule ut_invI)
      show "table_inv (hash_unique h) eq_unique (objects t2) (unique_table.m_set t2)"
        using inv' by (simp add: r)
      show "objects t2 x \<noteq> None \<longleftrightarrow> x \<in> set (elements (unique_table.m_set t2))" for x
        using ut_inv_dom [OF inv, of x] unfolding els2 by (simp add: r t0_def)
      show "blocks t2 x \<noteq> None" if "x \<in> set (elements (unique_table.m_set t2))" for x
        using that ut_inv_blocks [OF inv, of x] blk unfolding els2 by (auto simp: r)
      show "a \<notin> set (elements (unique_table.m_set t2)) \<and> blocks t2 a \<noteq> None"
        if "m_cache t2 = Some a" for a
        using that ut_inv_cache [OF inv, of a] ncache unfolding els2 by (auto simp: r)
    qed
    moreover have "u \<in> set (elements (unique_table.m_set t2))"
      unfolding els2 by (simp add: r(1))
    moreover have "\<exists>uz. objects t2 u = Some uz \<and> m_data uz = m_data ua"
      by (simp add: r x0)
    moreover have "u = y" if "y \<in> set (elements (unique_table.m_set t))"
      "objects t y = Some uy" "m_data uy = m_data ua" for y uy
    proof -
      have "objects t0 y = Some uy" using old [OF that(1)] that(2) by simp
      with fresh that(1) have "\<not> eq_unique ua uy" by blast
      with that(3) show ?thesis by (simp add: eq_unique_def)
    qed
    moreover have "objects t2 u = Some ua" by (simp add: r x0)
    ultimately show ?thesis using els2 r(1) by simp
  next
    case False
    with cases have first: "first \<in> set (elements (unique_table.m_set t))"
      and ex: "\<exists>dy. objects t0 first = Some dy \<and> eq_unique ua dy"
      and t1: "t1 = unique_table.m_set t" by simp_all
    from ex obtain dy where dy: "objects t0 first = Some dy" "eq_unique ua dy" by blast
    have dy': "objects t first = Some dy" using old [OF first] dy(1) by simp
    have back0: "(objects t0) (addr := None) = objects t"
      using none by (auto simp: t0_def)
    from un0 ins False none have r: "u = first" "objects t2 = objects t"
      "unique_table.m_set t2 = tbl"
      by (auto simp: unify_def Let_def t0_def split: if_splits)
    from un0 ins False have mem:
      "(m_cache t2 = Some addr \<and>
        blocks t2 = (case m_cache t of None \<Rightarrow> blocks t
                     | Some old \<Rightarrow> (blocks t) (old := None))) \<or>
       (m_cache t2 = m_cache t \<and> blocks t2 = (blocks t) (addr := None))"
      by (auto simp: unify_def Let_def t0_def split: if_splits option.splits)
    have els2: "set (elements (unique_table.m_set t2)) = set (elements (unique_table.m_set t))"
      by (simp add: r els t1)
    have "ut_inv h t2"
    proof (rule ut_invI)
      have "table_inv (hash_unique h) eq_unique (objects t) tbl"
      proof (rule table_inv_cong [OF inv'])
        fix z assume "z \<in> set (elements tbl)"
        then have "z \<in> set (elements (unique_table.m_set t))" by (simp add: els t1)
        then show "objects t z = objects t0 z" by (simp add: old)
      qed
      then show "table_inv (hash_unique h) eq_unique (objects t2) (unique_table.m_set t2)"
        by (simp add: r)
      show "objects t2 x \<noteq> None \<longleftrightarrow> x \<in> set (elements (unique_table.m_set t2))" for x
        using ut_inv_dom [OF inv, of x] unfolding els2 by (simp add: r)
      show "blocks t2 x \<noteq> None" if "x \<in> set (elements (unique_table.m_set t2))" for x
      proof -
        from that have x: "x \<in> set (elements (unique_table.m_set t))" by (simp add: els2)
        then have "x \<noteq> addr" using nel by blast
        moreover have "m_cache t \<noteq> Some x" using ut_inv_cache [OF inv, of x] x by blast
        ultimately show ?thesis
          using mem ut_inv_blocks [OF inv x] by (auto split: option.splits)
      qed
      show "a \<notin> set (elements (unique_table.m_set t2)) \<and> blocks t2 a \<noteq> None"
        if "m_cache t2 = Some a" for a
      proof -
        from mem show ?thesis
        proof
          assume m: "m_cache t2 = Some addr \<and>
            blocks t2 = (case m_cache t of None \<Rightarrow> blocks t
                         | Some old \<Rightarrow> (blocks t) (old := None))"
          with that have "a = addr" by simp
          with m nel blk ncache show ?thesis
            unfolding els2 by (auto split: option.splits)
        next
          assume m: "m_cache t2 = m_cache t \<and> blocks t2 = (blocks t) (addr := None)"
          with that have c: "m_cache t = Some a" by simp
          with ncache have "a \<noteq> addr" by auto
          with ut_inv_cache [OF inv c] m show ?thesis unfolding els2 by simp
        qed
      qed
    qed
    moreover have "u \<in> set (elements (unique_table.m_set t2))"
      using first unfolding els2 by (simp add: r(1))
    moreover have "\<exists>uz. objects t2 u = Some uz \<and> m_data uz = m_data ua"
      using dy' dy(2) by (simp add: r eq_unique_def)
    moreover have "u = y" if "y \<in> set (elements (unique_table.m_set t))"
      "objects t y = Some uy" "m_data uy = m_data ua" for y uy
    proof -
      have "m_data dy = m_data uy" using dy(2) that(3) by (simp add: eq_unique_def)
      with ut_inv_unique [OF inv first dy' that(1,2)] show ?thesis by (simp add: r)
    qed
    moreover have "objects t2 u = objects t u" by (simp add: r)
    moreover have "u \<noteq> addr" using first nel by (auto simp: r(1))
    ultimately show ?thesis using els2 by simp
  qed
  then show "ut_inv h t2"
    and "u \<in> set (elements (unique_table.m_set t2))"
    and "\<exists>uz. objects t2 u = Some uz \<and> m_data uz = m_data ua"
    and "\<And>y uy. y \<in> set (elements (unique_table.m_set t)) \<Longrightarrow> objects t y = Some uy \<Longrightarrow>
           m_data uy = m_data ua \<Longrightarrow> u = y"
    and "set (elements (unique_table.m_set t2)) =
           (if u = addr then insert addr (set (elements (unique_table.m_set t)))
            else set (elements (unique_table.m_set t)))"
    and "objects t2 u = Some ua \<or> objects t2 u = objects t u"
    by blast+
qed


lemma unify_returns:
  assumes inv: "ut_inv h t"
    and nel: "addr \<notin> set (elements (unique_table.m_set t))"
  shows "\<exists>u t2. unify h sizeof_Unique addr extra (t \<lparr> objects := (objects t) (addr \<mapsto> ua) \<rparr>) =
           Inr (u, t2)"
proof -
  define t0 where "t0 = t \<lparr> objects := (objects t) (addr \<mapsto> ua) \<rparr>"
  have old: "objects t0 z = objects t z" if "z \<in> set (elements (unique_table.m_set t))" for z
    using that nel by (auto simp: t0_def)
  have inv0: "table_inv (hash_unique h) eq_unique (objects t0) (unique_table.m_set t)"
    by (rule table_inv_cong [OF ut_inv_table [OF inv]]) (rule old)
  have x0: "objects t0 addr = Some ua" by (simp add: t0_def)
  from insert_ht_ok [OF unique_contract inv0 x0] obtain first second tbl where
    "insert_ht (hash_unique h) eq_unique (objects t0) addr (unique_table.m_set t) =
       Inr ((first, second), tbl)"
    by (elim exE conjE)
  then have "\<exists>u t2. unify h sizeof_Unique addr extra t0 = Inr (u, t2)"
    by (simp add: unify_def Let_def t0_def)
  then show ?thesis by (simp add: t0_def)
qed

lemma ut_inv_counter:
  assumes inv: "ut_inv h t" and x: "objects t x = Some u" and same: "m_data u' = m_data u"
  shows "ut_inv h (t \<lparr> objects := (objects t) (x \<mapsto> u') \<rparr>)"
proof (rule ut_invI)
  have "table_inv (hash_unique h) eq_unique ((objects t) (x \<mapsto> u')) (unique_table.m_set t)"
    by (rule table_inv_unique_cong [OF ut_inv_table [OF inv]]) (use x same in auto)
  then show "table_inv (hash_unique h) eq_unique
      (objects (t \<lparr> objects := (objects t) (x \<mapsto> u') \<rparr>))
      (unique_table.m_set (t \<lparr> objects := (objects t) (x \<mapsto> u') \<rparr>))" by simp
  show "objects (t \<lparr> objects := (objects t) (x \<mapsto> u') \<rparr>) z \<noteq> None \<longleftrightarrow>
      z \<in> set (elements (unique_table.m_set (t \<lparr> objects := (objects t) (x \<mapsto> u') \<rparr>)))" for z
    using ut_inv_dom [OF inv, of z] ut_inv_dom [OF inv, of x] x by auto
  show "blocks (t \<lparr> objects := (objects t) (x \<mapsto> u') \<rparr>) z \<noteq> None"
    if "z \<in> set (elements (unique_table.m_set (t \<lparr> objects := (objects t) (x \<mapsto> u') \<rparr>)))" for z
    using ut_inv_blocks [OF inv, of z] that by simp
  show "a \<notin> set (elements (unique_table.m_set (t \<lparr> objects := (objects t) (x \<mapsto> u') \<rparr>))) \<and>
      blocks (t \<lparr> objects := (objects t) (x \<mapsto> u') \<rparr>) a \<noteq> None"
    if "m_cache (t \<lparr> objects := (objects t) (x \<mapsto> u') \<rparr>) = Some a" for a
    using ut_inv_cache [OF inv, of a] that by simp
qed

lemma increment_at_ok:
  assumes inv: "ut_inv h (m_ut s)" and inc: "increment_at x s = Inr s'"
  shows "ut_inv h (m_ut s')"
    and "unique_table.m_set (m_ut s') = unique_table.m_set (m_ut s)"
    and "map_option m_data (objects (m_ut s') z) = map_option m_data (objects (m_ut s) z)"
proof -
  from inc obtain u where u: "objects (m_ut s) x = Some u"
    and s': "s' = s \<lparr> m_ut := (m_ut s) \<lparr> objects := (objects (m_ut s))
               (x \<mapsto> u \<lparr> m_ref_count := m_ref_count u + 1 \<rparr>) \<rparr> \<rparr>"
    by (auto simp: increment_at_def increment_reference_counter_def
        split: option.splits if_splits)
  show "ut_inv h (m_ut s')"
    unfolding s' using ut_inv_counter [OF inv u, of "u \<lparr> m_ref_count := m_ref_count u + 1 \<rparr>"]
    by simp
  show "unique_table.m_set (m_ut s') = unique_table.m_set (m_ut s)" by (simp add: s')
  show "map_option m_data (objects (m_ut s') z) = map_option m_data (objects (m_ut s) z)"
    using u by (simp add: s')
qed

lemma decrement_at_ok:
  assumes inv: "ut_inv h (m_ut s)" and dec: "decrement_at x s = Inr s'"
  shows "ut_inv h (m_ut s')"
    and "unique_table.m_set (m_ut s') = unique_table.m_set (m_ut s)"
    and "map_option m_data (objects (m_ut s') z) = map_option m_data (objects (m_ut s) z)"
proof -
  from dec obtain u where u: "objects (m_ut s) x = Some u"
    and s': "s' = s \<lparr> m_ut := (m_ut s) \<lparr> objects := (objects (m_ut s))
               (x \<mapsto> u \<lparr> m_ref_count := m_ref_count u - 1 \<rparr>) \<rparr> \<rparr>"
    by (auto simp: decrement_at_def decrement_reference_counter_def
        split: option.splits if_splits)
  show "ut_inv h (m_ut s')"
    unfolding s' using ut_inv_counter [OF inv u, of "u \<lparr> m_ref_count := m_ref_count u - 1 \<rparr>"]
    by simp
  show "unique_table.m_set (m_ut s') = unique_table.m_set (m_ut s)" by (simp add: s')
  show "map_option m_data (objects (m_ut s') z) = map_option m_data (objects (m_ut s) z)"
    using u by (simp add: s')
qed

lemma unique_table_erase_ok:
  assumes inv: "ut_inv h t" and er: "unique_table_erase h x t = Inr t'"
  shows "ut_inv h t'"
proof -
  from er obtain u tbl where u: "objects t x = Some u"
    and e: "erase (hash_unique h) eq_unique (objects t) x (unique_table.m_set t) = Inr tbl"
    and t': "t' = t \<lparr> unique_table.m_set := tbl, objects := (objects t) (x := None),
                      blocks := (blocks t) (x := None) \<rparr>"
    by (auto simp: unique_table_erase_def split: option.splits if_splits sum.splits)
  have xin: "x \<in> set (elements (unique_table.m_set t))" using ut_inv_dom [OF inv, of x] u by simp
  from erase_ok [OF unique_contract ut_inv_table [OF inv] xin] e
  have inv': "table_inv (hash_unique h) eq_unique (objects t) tbl"
    and els: "set (elements tbl) = set (elements (unique_table.m_set t)) - {x}" by auto
  show ?thesis
  proof (rule ut_invI)
    have "table_inv (hash_unique h) eq_unique ((objects t) (x := None)) tbl"
      by (rule table_inv_cong [OF inv']) (simp add: els)
    then show "table_inv (hash_unique h) eq_unique (objects t') (unique_table.m_set t')"
      by (simp add: t')
    show "objects t' z \<noteq> None \<longleftrightarrow> z \<in> set (elements (unique_table.m_set t'))" for z
      using ut_inv_dom [OF inv, of z] by (auto simp: t' els)
    show "blocks t' z \<noteq> None" if "z \<in> set (elements (unique_table.m_set t'))" for z
      using ut_inv_blocks [OF inv, of z] that by (auto simp: t' els)
    show "a \<notin> set (elements (unique_table.m_set t')) \<and> blocks t' a \<noteq> None"
      if "m_cache t' = Some a" for a
      using ut_inv_cache [OF inv, of a] that xin by (auto simp: t' els)
  qed
qed

lemma release_ok:
  assumes inv: "ut_inv h (m_ut s)" and rel: "release h this s = Inr s'"
  shows "ut_inv h (m_ut s')"
proof (cases "m_x this")
  case None
  with rel have "s' = s" by (simp add: release_def)
  with inv show ?thesis by simp
next
  case (Some x)
  with rel obtain s1 u where dec: "decrement_at x s = Inr s1"
    and u: "objects (m_ut s1) x = Some u"
    and fin: "(if is_not_referenced u then call_deletion_handler h x s1 else Inr s1) = Inr s'"
    by (auto simp: release_def split: sum.splits option.splits)
  note inv1 = decrement_at_ok(1) [OF inv dec]
  show ?thesis
  proof (cases "is_not_referenced u")
    case True
    with fin obtain t' where "unique_table_erase h x (m_ut s1) = Inr t'" "s' = s1 \<lparr> m_ut := t' \<rparr>"
      by (auto simp: call_deletion_handler_def split: handler.splits sum.splits)
    with unique_table_erase_ok [OF inv1] show ?thesis by simp
  next
    case False
    with fin inv1 show ?thesis by simp
  qed
qed

lemma placement_new_ok:
  assumes "placement_new sizeof_Unique addr args t = Inr t'"
  shows "t' = t \<lparr> objects := (objects t) (addr \<mapsto> unique args) \<rparr>"
    and "\<exists>n. blocks t addr = Some n \<and> sizeof_Unique \<le> n"
  using assms by (auto simp: placement_new_def split: option.splits if_splits)

lemma make_sized_ok:
  assumes inv: "ut_inv h (m_ut s)"
    and mk: "make_sized h sizeof_Unique sizeof_T fresh sz args s = Inr (p, s')"
  shows "ut_inv h (m_ut s')"
    and "\<exists>z uz. m_x p = Some z \<and> z \<in> set (elements (unique_table.m_set (m_ut s'))) \<and>
           objects (m_ut s') z = Some uz \<and> m_data uz = args \<and>
           (\<forall>y uy. objects (m_ut s) y = Some uy \<longrightarrow> m_data uy = args \<longrightarrow> z = y) \<and>
           set (elements (unique_table.m_set (m_ut s'))) =
             insert z (set (elements (unique_table.m_set (m_ut s))))"
proof -
  from mk obtain addr t1 t1' u t2 where
    al: "unique_table_allocate sizeof_Unique sz fresh (m_ut s) = Inr (addr, t1)"
    and pn: "placement_new sizeof_Unique addr args t1 = Inr t1'"
    and un': "unify h sizeof_Unique addr sz t1' = Inr (u, t2)"
    and pt: "ptr u (s \<lparr> m_ut := t2 \<rparr>) = Inr (p, s')"
    by (auto simp: make_sized_def split: if_splits sum.splits)
  have un: "unify h sizeof_Unique addr sz (t1 \<lparr> objects := (objects t1) (addr \<mapsto> unique args) \<rparr>) =
               Inr (u, t2)"
    using un' placement_new_ok(1) [OF pn] by simp
  note a = allocate_ok [OF inv al]
  have nel1: "addr \<notin> set (elements (unique_table.m_set t1))" using a(4) by (simp add: a(3))
  note un_ok = unify_ok [OF a(1) nel1 a(5) a(6) un]
  from pt have p: "p = Ptr (Some u)" and inc: "increment_at u (s \<lparr> m_ut := t2 \<rparr>) = Inr s'"
    by (auto simp: ptr_def split: sum.splits)
  have inv2: "ut_inv h (m_ut (s \<lparr> m_ut := t2 \<rparr>))" using un_ok(1) by simp
  note i = increment_at_ok [OF inv2 inc]
  show "ut_inv h (m_ut s')" by (rule i(1))
  from un_ok(3) obtain uz where uz: "objects t2 u = Some uz" "m_data uz = m_data (unique args)"
    by blast
  from i(3) [of u] uz(1) obtain uz' where uz': "objects (m_ut s') u = Some uz'"
    "m_data uz' = m_data uz" by (cases "objects (m_ut s') u") auto
  have uin: "u \<in> set (elements (unique_table.m_set (m_ut s')))"
    using un_ok(2) by (simp add: i(2))
  have ret: "u = y" if "objects (m_ut s) y = Some uy" "m_data uy = args" for y uy
  proof -
    have "y \<in> set (elements (unique_table.m_set (m_ut s)))"
      using ut_inv_dom [OF inv, of y] that(1) by simp
    then have "y \<in> set (elements (unique_table.m_set t1))" by (simp add: a(3))
    moreover have "objects t1 y = Some uy" using that(1) by (simp add: a(2))
    moreover have "m_data uy = m_data (unique args)" using that(2) by (simp add: unique_def)
    ultimately show ?thesis by (rule un_ok(4))
  qed
  have "set (elements (unique_table.m_set t2)) = insert u (set (elements (unique_table.m_set t1)))"
    using un_ok(5) un_ok(2) by (auto split: if_splits)
  then have els: "set (elements (unique_table.m_set (m_ut s'))) =
      insert u (set (elements (unique_table.m_set (m_ut s))))"
    by (simp add: i(2) a(3))
  have "m_x p = Some u" by (simp add: p)
  moreover have "m_data uz' = args" using uz' uz(2) by (simp add: unique_def)
  moreover have "\<forall>y uy. objects (m_ut s) y = Some uy \<longrightarrow> m_data uy = args \<longrightarrow> u = y"
    using ret by blast
  ultimately show "\<exists>z uz. m_x p = Some z \<and> z \<in> set (elements (unique_table.m_set (m_ut s'))) \<and>
           objects (m_ut s') z = Some uz \<and> m_data uz = args \<and>
           (\<forall>y uy. objects (m_ut s) y = Some uy \<longrightarrow> m_data uy = args \<longrightarrow> z = y) \<and>
           set (elements (unique_table.m_set (m_ut s'))) =
             insert z (set (elements (unique_table.m_set (m_ut s))))"
    using uin uz'(1) els by blast
qed

lemma apply_action_ok:
  assumes inv: "ut_inv h (m_ut s)"
    and ap: "apply_action h sizeof_Unique sizeof_T a s = Inr s'"
  shows "ut_inv h (m_ut s')"
proof (cases a)
  case (Make_sized fresh sz args)
  with ap obtain p where "make_sized h sizeof_Unique sizeof_T fresh sz args s = Inr (p, s')"
    by (auto split: sum.splits)
  from make_sized_ok(1) [OF inv this] show ?thesis .
next
  case (Copy other)
  with ap obtain x where "increment_at x s = Inr s'"
    by (auto simp: ptr_copy_def split: sum.splits option.splits)
  from increment_at_ok(1) [OF inv this] show ?thesis .
next
  case (Assign this other)
  with ap obtain y s1 where "release h this s = Inr s1" "increment_at y s1 = Inr s'"
    by (auto simp: ptr_assign_def split: sum.splits option.splits)
  from increment_at_ok(1) [OF release_ok [OF inv this(1)] this(2)] show ?thesis .
next
  case (Move_assign this other self)
  with ap have "release h this s = Inr s'"
    by (auto simp: ptr_move_assign_def split: sum.splits if_splits)
  from release_ok [OF inv this] show ?thesis .
next
  case (Destroy this)
  with ap have "release h this s = Inr s'" by (simp add: ptr_destroy_def)
  from release_ok [OF inv this] show ?thesis .
qed

lemma run_actions_ok:
  "ut_inv h (m_ut s) \<Longrightarrow> run_actions h sizeof_Unique sizeof_T acts s = Inr s' \<Longrightarrow>
     ut_inv h (m_ut s')"
proof (induction acts arbitrary: s)
  case Nil
  then show ?case by simp
next
  case (Cons a acts)
  from Cons.prems(2) obtain s1 where a: "apply_action h sizeof_Unique sizeof_T a s = Inr s1"
    and r: "run_actions h sizeof_Unique sizeof_T acts s1 = Inr s'"
    by (auto split: sum.splits)
  from Cons.IH [OF apply_action_ok [OF Cons.prems(1) a] r] show ?case .
qed

lemma unicity_inv: "ut_inv h (m_ut (unicity n))"
  by (rule ut_invI) (simp_all add: unicity_def unique_table_def table_inv_hash_table)


lemma increment_at_returns:
  assumes "objects (m_ut s) x = Some u" and "m_ref_count u < 2 ^ 32 - 1"
  shows "\<exists>s'. increment_at x s = Inr s'"
  using assms by (simp add: increment_at_def increment_reference_counter_def)

lemma allocate_blocks:
  assumes "unique_table_allocate sizeof_Unique extra fresh t = Inr (addr, t1)"
  shows "a \<noteq> addr \<Longrightarrow> blocks t1 a = blocks t a"
    and "(m_cache t = Some addr \<and> blocks t1 addr = blocks t addr) \<or>
         blocks t1 addr = Some (size_t (sizeof_Unique + extra))"
  using assms
  by (auto simp: unique_table_allocate_def new_char_array_def split: option.splits if_splits)

lemma unify_blocks:
  assumes "unify h sizeof_Unique addr extra t = Inr (u, t2)" and "blocks t2 a = Some n"
  shows "blocks t a = Some n"
  using assms
  by (auto simp: unify_def Let_def split: sum.splits prod.splits if_splits option.splits)

lemma increment_at_blocks:
  "increment_at x s = Inr s' \<Longrightarrow> blocks (m_ut s') = blocks (m_ut s)"
  by (auto simp: increment_at_def split: option.splits sum.splits)

lemma decrement_at_blocks:
  "decrement_at x s = Inr s' \<Longrightarrow> blocks (m_ut s') = blocks (m_ut s)"
  by (auto simp: decrement_at_def split: option.splits sum.splits)

lemma release_blocks:
  assumes "release h this s = Inr s'" and "blocks (m_ut s') a = Some n"
  shows "blocks (m_ut s) a = Some n"
proof (cases "m_x this")
  case None
  with assms show ?thesis by (simp add: release_def)
next
  case (Some x)
  with assms(1) obtain s1 u where dec: "decrement_at x s = Inr s1"
    and u: "objects (m_ut s1) x = Some u"
    and fin: "(if is_not_referenced u then call_deletion_handler h x s1 else Inr s1) = Inr s'"
    by (auto simp: release_def split: sum.splits option.splits)
  have "blocks (m_ut s1) a = Some n"
    using fin assms(2)
    by (auto simp: call_deletion_handler_def unique_table_erase_def
        split: if_splits handler.splits sum.splits option.splits)
  then show ?thesis by (simp add: decrement_at_blocks [OF dec])
qed

lemma make_sized_fit:
  assumes fit: "blocks_fit sizeof_Unique (m_ut s)"
    and mk: "make_sized h sizeof_Unique sizeof_T fresh sz args s = Inr (p, s')"
  shows "blocks_fit sizeof_Unique (m_ut s')"
proof -
  from mk obtain addr t1 t1' u t2 where
    al: "unique_table_allocate sizeof_Unique sz fresh (m_ut s) = Inr (addr, t1)"
    and pn: "placement_new sizeof_Unique addr args t1 = Inr t1'"
    and un: "unify h sizeof_Unique addr sz t1' = Inr (u, t2)"
    and pt: "ptr u (s \<lparr> m_ut := t2 \<rparr>) = Inr (p, s')"
    by (auto simp: make_sized_def split: if_splits sum.splits)
  from pt have inc: "increment_at u (s \<lparr> m_ut := t2 \<rparr>) = Inr s'"
    by (auto simp: ptr_def split: sum.splits)
  show ?thesis
    unfolding blocks_fit_def
  proof (intro allI impI)
    fix a n assume "blocks (m_ut s') a = Some n"
    then have "blocks t2 a = Some n" using increment_at_blocks [OF inc] by simp
    then have "blocks t1' a = Some n" by (rule unify_blocks [OF un])
    then have b1: "blocks t1 a = Some n" by (simp add: placement_new_ok(1) [OF pn])
    show "sizeof_Unique \<le> n"
    proof (cases "a = addr")
      case True
      with placement_new_ok(2) [OF pn] b1 show ?thesis by auto
    next
      case False
      with allocate_blocks(1) [OF al] b1 have "blocks (m_ut s) a = Some n" by simp
      with fit show ?thesis unfolding blocks_fit_def by blast
    qed
  qed
qed

lemma apply_action_fit:
  assumes fit: "blocks_fit sizeof_Unique (m_ut s)"
    and ap: "apply_action h sizeof_Unique sizeof_T a s = Inr s'"
  shows "blocks_fit sizeof_Unique (m_ut s')"
proof (cases a)
  case (Make_sized fresh sz args)
  with ap obtain p where "make_sized h sizeof_Unique sizeof_T fresh sz args s = Inr (p, s')"
    by (auto split: sum.splits)
  from make_sized_fit [OF fit this] show ?thesis .
next
  case (Copy other)
  with ap obtain x where "increment_at x s = Inr s'"
    by (auto simp: ptr_copy_def split: sum.splits option.splits)
  with fit show ?thesis by (simp add: blocks_fit_def increment_at_blocks)
next
  case (Assign this other)
  with ap obtain y s1 where r: "release h this s = Inr s1" and i: "increment_at y s1 = Inr s'"
    by (auto simp: ptr_assign_def split: sum.splits option.splits)
  show ?thesis
    using fit release_blocks [OF r] unfolding blocks_fit_def increment_at_blocks [OF i] by blast
next
  case (Move_assign this other self)
  with ap have r: "release h this s = Inr s'"
    by (auto simp: ptr_move_assign_def split: sum.splits if_splits)
  show ?thesis using fit release_blocks [OF r] unfolding blocks_fit_def by blast
next
  case (Destroy this)
  with ap have r: "release h this s = Inr s'" by (simp add: ptr_destroy_def)
  show ?thesis using fit release_blocks [OF r] unfolding blocks_fit_def by blast
qed

lemma run_actions_fit:
  "blocks_fit sizeof_Unique (m_ut s) \<Longrightarrow>
     run_actions h sizeof_Unique sizeof_T acts s = Inr s' \<Longrightarrow>
     blocks_fit sizeof_Unique (m_ut s')"
proof (induction acts arbitrary: s)
  case Nil
  then show ?case by simp
next
  case (Cons a acts)
  from Cons.prems(2) obtain s1 where a: "apply_action h sizeof_Unique sizeof_T a s = Inr s1"
    and r: "run_actions h sizeof_Unique sizeof_T acts s1 = Inr s'"
    by (auto split: sum.splits)
  from Cons.IH [OF apply_action_fit [OF Cons.prems(1) a] r] show ?case .
qed

lemma unicity_fit: "blocks_fit sizeof_Unique (m_ut (unicity n))"
  by (simp add: blocks_fit_def unicity_def unique_table_def)

lemma size_t_small: "n < 2 ^ 64 \<Longrightarrow> size_t n = n"
  by (simp add: size_t_def)

lemma make_sized_returns:
  assumes inv: "ut_inv h (m_ut s)" and fit: "blocks_fit sizeof_Unique (m_ut s)"
    and sz: "sizeof_T \<le> sz" and bound: "sizeof_Unique + sz < 2 ^ 64"
    and fresh: "blocks (m_ut s) fresh = None"
    and cnt: "\<forall>z uz. objects (m_ut s) z = Some uz \<longrightarrow> m_ref_count uz < 2 ^ 32 - 1"
  shows "\<exists>p s'. make_sized h sizeof_Unique sizeof_T fresh sz args s = Inr (p, s')"
proof -
  have "\<exists>addr t1. unique_table_allocate sizeof_Unique sz fresh (m_ut s) = Inr (addr, t1)"
    using fresh by (auto simp: unique_table_allocate_def new_char_array_def split: option.splits)
  then obtain addr t1 where
    al: "unique_table_allocate sizeof_Unique sz fresh (m_ut s) = Inr (addr, t1)" by blast
  note a = allocate_ok [OF inv al]
  have nel1: "addr \<notin> set (elements (unique_table.m_set t1))" using a(4) by (simp add: a(3))
  have "\<exists>n. blocks t1 addr = Some n \<and> sizeof_Unique \<le> n"
    using allocate_blocks(2) [OF al]
  proof
    assume c: "m_cache (m_ut s) = Some addr \<and> blocks t1 addr = blocks (m_ut s) addr"
    with ut_inv_cache [OF inv, of addr] obtain n where n: "blocks (m_ut s) addr = Some n"
      by auto
    with fit have "sizeof_Unique \<le> n" unfolding blocks_fit_def by blast
    with c n show ?thesis by simp
  next
    assume "blocks t1 addr = Some (size_t (sizeof_Unique + sz))"
    then show ?thesis by (simp add: size_t_small [OF bound])
  qed
  then have pn: "placement_new sizeof_Unique addr args t1 =
      Inr (t1 \<lparr> objects := (objects t1) (addr \<mapsto> unique args) \<rparr>)"
    by (auto simp: placement_new_def)
  from unify_returns [OF a(1) nel1] obtain u t2 where
    un: "unify h sizeof_Unique addr sz (t1 \<lparr> objects := (objects t1) (addr \<mapsto> unique args) \<rparr>) =
           Inr (u, t2)" by blast
  note un_ok = unify_ok [OF a(1) nel1 a(5) a(6) un]
  from un_ok(3) obtain uz where uz: "objects t2 u = Some uz" by blast
  have "m_ref_count uz < 2 ^ 32 - 1"
    using un_ok(6) uz cnt by (auto simp: unique_def a(2))
  from increment_at_returns [of "s \<lparr> m_ut := t2 \<rparr>" u uz, OF _ this] uz
  obtain s' where "increment_at u (s \<lparr> m_ut := t2 \<rparr>) = Inr s'" by auto
  with al pn un sz show ?thesis by (simp add: make_sized_def ptr_def)
qed

section \<open>The filter gate\<close>

lemma apply_filters_accept_iff:
  "apply_filters Fs op = Inr True \<longleftrightarrow> (\<forall>j<length Fs. (Fs ! j) op = Inr True)"
  by (induction Fs) (auto simp: All_less_Suc2 split: sum.splits bool.splits)

lemma apply_filters_stop_iff:
  "r \<noteq> Inr True \<Longrightarrow>
     apply_filters Fs op = r \<longleftrightarrow>
       (\<exists>i<length Fs. (Fs ! i) op = r \<and> (\<forall>j<i. (Fs ! j) op = Inr True))"
  by (induction Fs) (auto simp: Ex_less_Suc2 All_less_Suc2 split: sum.splits bool.splits)

lemma apply_filters_prefix:
  assumes "i < length Fs" and "(Fs ! i) op = r" and "r \<noteq> Inr True"
    and "\<forall>j<i. (Fs ! j) op = Inr True"
  shows "apply_filters (take (Suc i) Fs @ Others) op = r"
proof -
  have "i < length (take (Suc i) Fs @ Others)" using assms(1) by simp
  moreover have "((take (Suc i) Fs @ Others) ! i) op = r"
    using assms(1,2) by (simp add: nth_append)
  moreover have "\<forall>j<i. ((take (Suc i) Fs @ Others) ! j) op = Inr True"
    using assms(1,4) by (simp add: nth_append)
  ultimately show ?thesis
    unfolding apply_filters_stop_iff [OF assms(3)] by blast
qed

text \<open>
  Claim C6. The filters are applied in their declared order as a short-circuit
  conjunction. \<open>apply_filters\<close> accepts exactly when every filter accepts. It rejects
  exactly when some filter rejects and every filter before it accepted, and it throws what
  a filter throws exactly when every filter before that one accepted; the filters after the
  first one that does not accept have no say, whatever they are. When \<open>apply_filters\<close>
  rejects, the lookup increments \<open>filtered\<close> by one, evaluates the operation and returns what
  the evaluation returns and the cache as the evaluation leaves it. For an operation that
  does not itself touch the cache, the hash table, the LRU list, the pool, the entries and
  the other counters are as before.
\<close>

theorem filter_rejection_bypasses_cache:
  "(apply_filters Filters op = Inr True \<longleftrightarrow>
      (\<forall>j<length Filters. (Filters ! j) op = Inr True)) \<and>
   (apply_filters Filters op = Inr False \<longleftrightarrow>
      (\<exists>i<length Filters. (Filters ! i) op = Inr False \<and>
         (\<forall>j<i. (Filters ! j) op = Inr True))) \<and>
   (apply_filters Filters op = Inl e \<longleftrightarrow>
      (\<exists>i<length Filters. (Filters ! i) op = Inl e \<and>
         (\<forall>j<i. (Filters ! j) op = Inr True))) \<and>
   (\<forall>i<length Filters.
      (Filters ! i) op = Inr False \<and> (\<forall>j<i. (Filters ! j) op = Inr True) \<longrightarrow>
      apply_filters (take (Suc i) Filters @ Others) op = Inr False) \<and>
   (apply_filters Filters op = Inr False \<longrightarrow>
      cache_lookup h Filters run op c =
        Inr (run op (c \<lparr> m_stats := (m_stats c) \<lparr> filtered := filtered (m_stats c) + 1 \<rparr> \<rparr>)) \<and>
      (\<exists>c'. cache_lookup h Filters (pure_run f) op c = Inr (f op, c') \<and>
            m_set c' = m_set c \<and> m_lru_list c' = m_lru_list c \<and> m_pool c' = m_pool c \<and>
            entries c' = entries c \<and> m_max_size c' = m_max_size c \<and>
            hits (m_stats c') = hits (m_stats c) \<and>
            misses (m_stats c') = misses (m_stats c) \<and>
            discarded (m_stats c') = discarded (m_stats c) \<and>
            filtered (m_stats c') = filtered (m_stats c) + 1))"
proof (intro conjI)
  show "apply_filters Filters op = Inr True \<longleftrightarrow>
      (\<forall>j<length Filters. (Filters ! j) op = Inr True)"
    by (rule apply_filters_accept_iff)
  show "apply_filters Filters op = Inr False \<longleftrightarrow>
      (\<exists>i<length Filters. (Filters ! i) op = Inr False \<and>
         (\<forall>j<i. (Filters ! j) op = Inr True))"
    by (rule apply_filters_stop_iff) simp
  show "apply_filters Filters op = Inl e \<longleftrightarrow>
      (\<exists>i<length Filters. (Filters ! i) op = Inl e \<and>
         (\<forall>j<i. (Filters ! j) op = Inr True))"
    by (rule apply_filters_stop_iff) simp
  show "\<forall>i<length Filters.
      (Filters ! i) op = Inr False \<and> (\<forall>j<i. (Filters ! j) op = Inr True) \<longrightarrow>
      apply_filters (take (Suc i) Filters @ Others) op = Inr False"
    using apply_filters_prefix [where Fs = Filters and op = op and r = "Inr False"] by simp
  show "apply_filters Filters op = Inr False \<longrightarrow>
      cache_lookup h Filters run op c =
        Inr (run op (c \<lparr> m_stats := (m_stats c) \<lparr> filtered := filtered (m_stats c) + 1 \<rparr> \<rparr>)) \<and>
      (\<exists>c'. cache_lookup h Filters (pure_run f) op c = Inr (f op, c') \<and>
            m_set c' = m_set c \<and> m_lru_list c' = m_lru_list c \<and> m_pool c' = m_pool c \<and>
            entries c' = entries c \<and> m_max_size c' = m_max_size c \<and>
            hits (m_stats c') = hits (m_stats c) \<and>
            misses (m_stats c') = misses (m_stats c) \<and>
            discarded (m_stats c') = discarded (m_stats c) \<and>
            filtered (m_stats c') = filtered (m_stats c) + 1)"
    by (simp add: cache_lookup_def pure_run_def)
qed

theorem filter_rejection_bypasses_cache_witness:
  "(three_filters ! 0) 0 = Inr True \<and> (three_filters ! 1) 0 = Inr False \<and>
   apply_filters three_filters 0 = Inr False \<and>
   apply_filters (take 2 three_filters @ [\<lambda>_. Inr True]) 0 = Inr False \<and>
   (three_filters ! 0) 5 = Inr True \<and> (three_filters ! 1) 5 = Inr True \<and>
   (three_filters ! 2) 5 = Inl () \<and>
   apply_filters (take 2 three_filters) 5 = Inr True \<and>
   apply_filters three_filters 5 = Inl () \<and>
   cache_lookup id_hash three_filters (pure_run times_ten) 0 empty3 =
     Inr (Inr 0, empty3 \<lparr> m_stats := \<lparr> hits = 0, misses = 0, filtered = 1, discarded = 0 \<rparr> \<rparr>)"
proof -
  have at0: "(three_filters ! 0) 0 = Inr True" "(three_filters ! 1) 0 = Inr False"
    by (simp_all add: three_filters_def)
  have at5: "(three_filters ! 0) 5 = Inr True" "(three_filters ! 1) 5 = Inr True"
    "(three_filters ! 2) 5 = Inl ()"
    by (simp_all add: three_filters_def)
  have len: "length three_filters = 3" by (simp add: three_filters_def)
  note rejected = filter_rejection_bypasses_cache
    [where Filters = three_filters and op = 0 and Others = "[\<lambda>_. Inr True]" and h = id_hash
       and run = "pure_run times_ten" and c = empty3 and f = times_ten and e = "()"]
  have "\<exists>i<length three_filters. (three_filters ! i) 0 = Inr False \<and>
      (\<forall>j<i. (three_filters ! j) 0 = Inr True)"
    using at0 len by (intro exI [of _ 1]) simp
  with rejected have rej: "apply_filters three_filters 0 = Inr False" by blast
  from rejected at0 len
  have short: "apply_filters (take 2 three_filters @ [\<lambda>_. Inr True]) 0 = Inr False"
    by (auto simp: numeral_2_eq_2 dest!: spec [of _ 1])
  from rejected rej
  have "cache_lookup id_hash three_filters (pure_run times_ten) 0 empty3 =
     Inr (pure_run times_ten 0
            (empty3 \<lparr> m_stats := (m_stats empty3) \<lparr> filtered := filtered (m_stats empty3) + 1 \<rparr> \<rparr>))"
    by blast
  then have lk: "cache_lookup id_hash three_filters (pure_run times_ten) 0 empty3 =
     Inr (Inr 0, empty3 \<lparr> m_stats := \<lparr> hits = 0, misses = 0, filtered = 1, discarded = 0 \<rparr> \<rparr>)"
    by (simp add: pure_run_def times_ten_def empty3_def)
  have "\<forall>j<length (take 2 three_filters). (take 2 three_filters ! j) 5 = Inr True"
    using at5 len by (simp add: All_less_Suc numeral_2_eq_2)
  with filter_rejection_bypasses_cache
    [where Filters = "take 2 three_filters" and op = 5 and Others = "[]" and h = id_hash
       and run = "pure_run times_ten" and c = empty3 and f = times_ten and e = "()"]
  have acc: "apply_filters (take 2 three_filters) 5 = Inr True" by blast
  have "\<exists>i<length three_filters. (three_filters ! i) 5 = Inl () \<and>
      (\<forall>j<i. (three_filters ! j) 5 = Inr True)"
    using at5 len by (intro exI [of _ 2]) (simp add: All_less_Suc numeral_2_eq_2)
  with filter_rejection_bypasses_cache
    [where Filters = three_filters and op = 5 and Others = "[]" and h = id_hash
       and run = "pure_run times_ten" and c = empty3 and f = times_ten and e = "()"]
  have thr: "apply_filters three_filters 5 = Inl ()" by blast
  show ?thesis using at0 at5 rej short acc thr lk by simp
qed

section \<open>A failing evaluation\<close>

text \<open>
  Claim C4. When no filter rejects the operation, the probe of the table finds no entry for it
  and its evaluation throws, the lookup hands the exception to the caller and the cache
  is as the evaluation left it: for an operation that does not itself touch the cache,
  the cache as before the lookup with \<open>misses\<close> incremented by one, the table, the LRU
  list, the pool, the entries and the other counters unchanged.
\<close>

theorem failed_evaluation_leaves_cache:
  assumes "apply_filters Filters op = Inr True"
    and "insert_check (h op) (\<lambda>rhs. op = m_operation rhs) (entries c) (m_set c) = Inr (None, bucket)"
    and "f op = Inl e"
  shows "(\<exists>c'. cache_lookup h Filters (pure_run f) op c = Inr (Inl e, c') \<and>
               m_set c' = m_set c \<and> m_lru_list c' = m_lru_list c \<and> m_pool c' = m_pool c \<and>
               entries c' = entries c \<and> m_max_size c' = m_max_size c \<and>
               hits (m_stats c') = hits (m_stats c) \<and>
               filtered (m_stats c') = filtered (m_stats c) \<and>
               discarded (m_stats c') = discarded (m_stats c) \<and>
               misses (m_stats c') = misses (m_stats c) + 1) \<and>
         (\<forall>run e' c1.
             run op (c \<lparr> m_stats := (m_stats c) \<lparr> misses := misses (m_stats c) + 1 \<rparr> \<rparr>) = (Inl e', c1) \<longrightarrow>
             cache_lookup h Filters run op c = Inr (Inl e', c1))"
  using assms by (simp add: cache_lookup_def pure_run_def)

theorem failed_evaluation_leaves_cache_witness:
  "apply_filters [] (99::nat) = (Inr True :: unit + bool) \<and>
   insert_check (id_hash 99) (\<lambda>rhs. 99 = m_operation rhs) (entries empty3) (m_set empty3) = Inr (None, 3) \<and>
   times_ten 99 = Inl () \<and>
   cache_lookup id_hash [] (pure_run times_ten) 99 empty3 =
     Inr (Inl (), empty3 \<lparr> m_stats := \<lparr> hits = 0, misses = 1, filtered = 0, discarded = 0 \<rparr> \<rparr>)"
proof -
  have 1: "apply_filters [] (99::nat) = (Inr True :: unit + bool)" by simp
  have 2: "insert_check (id_hash 99) (\<lambda>rhs. 99 = m_operation rhs) (entries empty3) (m_set empty3)
             = Inr (None, 3)"
    by (simp add: insert_check_def id_hash_def empty3_def)
  have 3: "times_ten 99 = Inl ()" by (simp add: times_ten_def)
  from failed_evaluation_leaves_cache
         [where h = id_hash and op = 99 and c = empty3 and f = times_ten, OF 1 2 3]
  have "cache_lookup id_hash [] (pure_run times_ten) 99 empty3 =
     Inr (pure_run times_ten 99
            (empty3 \<lparr> m_stats := (m_stats empty3) \<lparr> misses := misses (m_stats empty3) + 1 \<rparr> \<rparr>))"
    by (simp add: pure_run_def 3)
  then show ?thesis using 1 2 3 by (simp add: pure_run_def empty3_def)
qed

section \<open>Hash consistency\<close>

text \<open>
  Claim C9. The hash of a handle is the hash of the pointer it stores, the hash of a unified
  value is the hash of its payload, and the hash of a cache entry is the hash of the
  operation it stores.
\<close>

theorem hash_consistency:
  "hash_ptr hp x = hp (m_x x) \<and>
   hash_unique h u = h (m_data u) \<and>
   hash_cache_entry ho entry = ho (m_operation entry)"
  by (simp add: hash_ptr_def hash_unique_def hash_cache_entry_def seed_def)

section \<open>Cache correctness\<close>

text \<open>
  Claim C1. In a cache that satisfies its invariant, take an operation \<open>op\<close> that the
  filters accept. When an entry for \<open>op\<close> is present, the lookup returns the stored result
  whatever the evaluation would do (the evaluation is not called), counts one hit and moves
  the node of the entry to the end of the LRU list. When no entry is present, the lookup
  evaluates \<open>op\<close> on the cache with one more miss, and the evaluation may itself look up the
  cache: if it returns \<open>res\<close> and leaves a cache \<open>c1\<close> that satisfies the invariant, has
  the same buckets and still no entry for \<open>op\<close>, then the lookup returns \<open>res\<close>; the
  clean-up is decided on \<open>c1\<close>, and in the cache left by the clean-up the lookup constructs
  an entry that holds \<open>op\<close> and \<open>res\<close>, with a new node at the end of the LRU list; the
  cache that results satisfies the invariant, holds no more entries than its capacity, and
  its stored results are results of evaluation when those of \<open>c1\<close> are. For an evaluation
  \<open>f\<close> that does not touch the cache, and a cache whose stored results are results of
  \<open>f\<close>, the lookup returns \<open>f op\<close> and leaves such a cache; on a miss it counts one miss
  and stores an entry that holds \<open>op\<close> and the result.
\<close>

theorem cache_correctness:
  assumes inv: "cache_inv h c"
    and acc: "apply_filters Filters op = Inr True"
  shows "(\<forall>p e. entries c p = Some e \<longrightarrow> m_operation e = op \<longrightarrow>
            (\<forall>run. cache_lookup h Filters run op c =
               Inr (Inr (m_result e),
                    c \<lparr> m_stats := (m_stats c) \<lparr> hits := hits (m_stats c) + 1 \<rparr>,
                        m_lru_list := filter (\<lambda>node. fst node \<noteq> m_lru_cit e) (m_lru_list c) @
                                      [(m_lru_cit e, p)] \<rparr>))) \<and>
         ((\<forall>p e. entries c p = Some e \<longrightarrow> m_operation e \<noteq> op) \<longrightarrow>
            (\<forall>run res c1.
               run op (c \<lparr> m_stats := (m_stats c) \<lparr> misses := misses (m_stats c) + 1 \<rparr> \<rparr>) =
                 (Inr res, c1) \<longrightarrow>
               cache_inv h c1 \<longrightarrow>
               m_nb_buckets (m_set c1) = m_nb_buckets (m_set c) \<longrightarrow>
               (\<forall>p e. entries c1 p = Some e \<longrightarrow> m_operation e \<noteq> op) \<longrightarrow>
               (\<exists>c2 c' entry cit.
                   (if m_size (m_set c1) = m_max_size c1 then evict h c1 else Inr c1) = Inr c2 \<and>
                   cache_lookup h Filters run op c = Inr (Inr res, c') \<and>
                   cache_inv h c' \<and> entries c2 entry = None \<and>
                   entries c' = (entries c2)
                     (entry \<mapsto> \<lparr> m_operation = op, m_result = res, m_lru_cit = cit \<rparr>) \<and>
                   m_lru_list c' = m_lru_list c2 @ [(cit, entry)] \<and>
                   m_stats c' = m_stats c2 \<and> m_max_size c' = m_max_size c1 \<and>
                   m_size (m_set c') \<le> m_max_size c' \<and>
                   (\<forall>f. results_of f c1 \<longrightarrow> f op = Inr res \<longrightarrow> results_of f c')))) \<and>
         (\<forall>f. results_of f c \<longrightarrow>
            (\<exists>c'. cache_lookup h Filters (pure_run f) op c = Inr (f op, c') \<and>
                  cache_inv h c' \<and> results_of f c') \<and>
            ((\<forall>p e. entries c p = Some e \<longrightarrow> m_operation e \<noteq> op) \<longrightarrow>
               (\<forall>r. f op = Inr r \<longrightarrow>
                  (\<exists>c' entry cit.
                      cache_lookup h Filters (pure_run f) op c = Inr (Inr r, c') \<and>
                      entries c' = (entries c)
                        (entry \<mapsto> \<lparr> m_operation = op, m_result = r, m_lru_cit = cit \<rparr>) \<and>
                      misses (m_stats c') = misses (m_stats c) + 1))))"
proof (intro conjI allI impI)
  fix p e run
  assume "entries c p = Some e" "m_operation e = op"
  then show "cache_lookup h Filters run op c =
               Inr (Inr (m_result e),
                    c \<lparr> m_stats := (m_stats c) \<lparr> hits := hits (m_stats c) + 1 \<rparr>,
                        m_lru_list := filter (\<lambda>node. fst node \<noteq> m_lru_cit e) (m_lru_list c) @
                                      [(m_lru_cit e, p)] \<rparr>)"
    by (rule lookup_hit [OF inv acc])
next
  fix run :: "'a \<Rightarrow> ('a, 'b) cache \<Rightarrow> ('c + 'b) \<times> ('a, 'b) cache" and res c1
  assume none: "\<forall>p e. entries c p = Some e \<longrightarrow> m_operation e \<noteq> op"
    and ev: "run op (c \<lparr> m_stats := (m_stats c) \<lparr> misses := misses (m_stats c) + 1 \<rparr> \<rparr>) =
               (Inr res, c1)"
    and inv1: "cache_inv h c1"
    and nb: "m_nb_buckets (m_set c1) = m_nb_buckets (m_set c)"
    and none1: "\<forall>p e. entries c1 p = Some e \<longrightarrow> m_operation e \<noteq> op"
  show "\<exists>c2 c' entry cit.
                   (if m_size (m_set c1) = m_max_size c1 then evict h c1 else Inr c1) = Inr c2 \<and>
                   cache_lookup h Filters run op c = Inr (Inr res, c') \<and>
                   cache_inv h c' \<and> entries c2 entry = None \<and>
                   entries c' = (entries c2)
                     (entry \<mapsto> \<lparr> m_operation = op, m_result = res, m_lru_cit = cit \<rparr>) \<and>
                   m_lru_list c' = m_lru_list c2 @ [(cit, entry)] \<and>
                   m_stats c' = m_stats c2 \<and> m_max_size c' = m_max_size c1 \<and>
                   m_size (m_set c') \<le> m_max_size c' \<and>
                   (\<forall>f. results_of f c1 \<longrightarrow> f op = Inr res \<longrightarrow> results_of f c')"
    by (rule lookup_miss_run [where run = run, OF inv acc none ev inv1 nb none1])
next
  fix f :: "'a \<Rightarrow> 'c + 'b"
  assume res: "results_of f c"
  from lookup_preserves [OF inv res, of Filters op] acc
  show "\<exists>c'. cache_lookup h Filters (pure_run f) op c = Inr (f op, c') \<and>
             cache_inv h c' \<and> results_of f c'" by auto
next
  fix f :: "'a \<Rightarrow> 'c + 'b" and r
  assume none: "\<forall>p e. entries c p = Some e \<longrightarrow> m_operation e \<noteq> op" and val: "f op = Inr r"
  from miss_value_entries [where f = f and res = r, OF inv acc none val]
  obtain c' entry cit where
    "cache_lookup h Filters (pure_run f) op c = Inr (Inr r, c')"
    "entries c' = (entries c) (entry \<mapsto> \<lparr> m_operation = op, m_result = r, m_lru_cit = cit \<rparr>)"
    "misses (m_stats c') = misses (m_stats c) + 1" by metis
  then show "\<exists>c' entry cit.
                   cache_lookup h Filters (pure_run f) op c = Inr (Inr r, c') \<and>
                   entries c' = (entries c)
                     (entry \<mapsto> \<lparr> m_operation = op, m_result = r, m_lru_cit = cit \<rparr>) \<and>
                   misses (m_stats c') = misses (m_stats c) + 1" by blast
qed

theorem cache_correctness_witness:
  "cache_inv id_hash two_entries \<and> results_of times_ten two_entries \<and>
   apply_filters [] (13 :: nat) = (Inr True :: unit + bool) \<and>
   \<not> (\<exists>p e. entries two_entries p = Some e \<and> m_operation e = 13) \<and>
   m_size (m_set two_entries) = 2 \<and> m_max_size two_entries = 3 \<and>
   nested_run 13
     (two_entries \<lparr> m_stats := (m_stats two_entries)
                      \<lparr> misses := misses (m_stats two_entries) + 1 \<rparr> \<rparr>) =
     (Inr 31, full3 \<lparr> m_stats := \<lparr> hits = 0, misses = 4, filtered = 0, discarded = 0 \<rparr> \<rparr>) \<and>
   m_size (m_set full3) = 3 \<and> m_max_size full3 = 3 \<and>
   cache_lookup id_hash [] nested_run 13 two_entries = Inr (Inr 31, reentered3) \<and>
   cache_inv id_hash reentered3 \<and> m_size (m_set reentered3) \<le> m_max_size reentered3 \<and>
   cache_inv id_hash full3 \<and>
   entries full3 0 = Some \<lparr> m_operation = 1, m_result = 10, m_lru_cit = 0 \<rparr> \<and>
   cache_lookup id_hash [] nested_run 1 full3 =
     Inr (Inr 10,
          full3 \<lparr> m_stats := \<lparr> hits = 1, misses = 3, filtered = 0, discarded = 0 \<rparr>,
                  m_lru_list := [(1, 1), (2, 2), (0, 0)] \<rparr>) \<and>
   cache_lookup id_hash [] (pure_run times_ten) 1 empty3 = Inr (Inr 10, one_entry)"
proof -
  have acc: "apply_filters [] (n :: nat) = (Inr True :: unit + bool)" for n by simp
  have inv0: "cache_inv id_hash empty3" by (rule cache_ctor(1) [OF cache_4])
  have res0: "results_of times_ten empty3" by (rule cache_ctor(3) [OF cache_4])
  have ev1: "cache_lookup id_hash [] (pure_run times_ten) 1 empty3 = Inr (Inr 10, one_entry)"
    by (simp add: lookup_eval empty3_def one_entry_def)
  from cache_correctness [OF inv0 acc, of 1] res0 ev1
  have inv1: "cache_inv id_hash one_entry" and res1: "results_of times_ten one_entry"
    by auto
  have ev2: "cache_lookup id_hash [] (pure_run times_ten) 2 one_entry = Inr (Inr 20, two_entries)"
    by (simp add: lookup_eval one_entry_def two_entries_def and_small)
  from cache_correctness [OF inv1 acc, of 2] res1 ev2
  have inv2: "cache_inv id_hash two_entries" and res2: "results_of times_ten two_entries"
    by auto
  have ev3: "cache_lookup id_hash [] (pure_run times_ten) 3 two_entries = Inr (Inr 30, full3)"
    by (simp add: lookup_eval two_entries_def full3_def suc_numerals)
  from cache_correctness [OF inv2 acc, of 3] res2 ev3
  have inv3: "cache_inv id_hash full3" by auto
  have none: "\<forall>p e. entries two_entries p = Some e \<longrightarrow> m_operation e \<noteq> 13"
    by (simp add: two_entries_def)
  have sizes: "m_size (m_set two_entries) = 2" "m_max_size two_entries = 3"
    "m_size (m_set full3) = 3" "m_max_size full3 = 3"
    by (simp_all add: two_entries_def full3_def)
  have inner: "nested_run 13
     (two_entries \<lparr> m_stats := (m_stats two_entries)
                      \<lparr> misses := misses (m_stats two_entries) + 1 \<rparr> \<rparr>) =
     (Inr 31, full3 \<lparr> m_stats := \<lparr> hits = 0, misses = 4, filtered = 0, discarded = 0 \<rparr> \<rparr>)"
    by (simp add: nested_run_def lookup_eval two_entries_def full3_def suc_numerals)
  have inv3': "cache_inv id_hash
      (full3 \<lparr> m_stats := \<lparr> hits = 0, misses = 4, filtered = 0, discarded = 0 \<rparr> \<rparr>)"
    using inv3 by simp
  have nb: "m_nb_buckets
      (m_set (full3 \<lparr> m_stats := \<lparr> hits = 0, misses = 4, filtered = 0, discarded = 0 \<rparr> \<rparr>)) =
      m_nb_buckets (m_set two_entries)"
    by (simp add: two_entries_def full3_def)
  have none': "\<forall>p e. entries
      (full3 \<lparr> m_stats := \<lparr> hits = 0, misses = 4, filtered = 0, discarded = 0 \<rparr> \<rparr>) p = Some e \<longrightarrow>
      m_operation e \<noteq> 13"
    by (simp add: full3_def)
  have outer: "cache_lookup id_hash [] nested_run 13 two_entries = Inr (Inr 31, reentered3)"
    by (simp add: nested_run_def lookup_eval two_entries_def reentered3_def and_13_3
        suc_numerals)
  from cache_correctness [OF inv2 acc, of 13] none inner inv3' nb none'
  have "\<exists>c'. cache_lookup id_hash [] nested_run 13 two_entries = Inr (Inr 31, c') \<and>
      cache_inv id_hash c' \<and> m_size (m_set c') \<le> m_max_size c'"
    by blast
  with outer have inv4: "cache_inv id_hash reentered3"
    and bound: "m_size (m_set reentered3) \<le> m_max_size reentered3" by auto
  have e: "entries full3 0 = Some \<lparr> m_operation = 1, m_result = 10, m_lru_cit = 0 \<rparr>"
    by (simp add: full3_def)
  from cache_correctness [OF inv3 acc, of 1] e
  have "cache_lookup id_hash [] nested_run 1 full3 =
     Inr (Inr 10,
          full3 \<lparr> m_stats := (m_stats full3) \<lparr> hits := hits (m_stats full3) + 1 \<rparr>,
                  m_lru_list := filter (\<lambda>node. fst node \<noteq> 0) (m_lru_list full3) @ [(0, 0)] \<rparr>)"
    by auto
  then have hit: "cache_lookup id_hash [] nested_run 1 full3 =
     Inr (Inr 10,
          full3 \<lparr> m_stats := \<lparr> hits = 1, misses = 3, filtered = 0, discarded = 0 \<rparr>,
                  m_lru_list := [(1, 1), (2, 2), (0, 0)] \<rparr>)"
    by (simp add: full3_def)
  show ?thesis
    using inv2 res2 acc none sizes inner outer inv4 bound inv3 e hit ev1 by simp
qed

section \<open>The LRU list and \<open>clear()\<close>\<close>

text \<open>
  Claim C10. \<open>clear()\<close> empties the table and destructs the entries, but leaves the LRU list
  as it was. After the lookups of \<open>1\<close>, \<open>2\<close>, \<open>3\<close> the list holds exactly the three chained
  entries; after \<open>clear()\<close> the table is empty and the list still holds the three nodes, which
  point to destructed entries. The lookups of \<open>4\<close>, \<open>5\<close>, \<open>6\<close> fill the cache again, the entry
  of \<open>6\<close> in the slot 0. The lookup of \<open>7\<close> then evicts what the front node \<open>(0, 0)\<close>, left
  from before the \<open>clear()\<close>, points to: the entry of \<open>6\<close>, the most recently used one, while
  the entry of \<open>4\<close>, the least recently used one, stays.
\<close>

theorem clear_keeps_lru_nodes:
  "cache_lookups id_hash [] times_ten [1, 2, 3] empty3 = Inr full3 \<and>
   lru_exact full3 \<and>
   clear full3 = cleared3 \<and>
   elements (m_set cleared3) = [] \<and>
   m_lru_list cleared3 = [(0, 0), (1, 1), (2, 2)] \<and>
   \<not> lru_exact cleared3 \<and>
   cache_lookups id_hash [] times_ten [4, 5, 6] cleared3 = Inr refilled3 \<and>
   hd (m_lru_list refilled3) = (0, 0) \<and>
   entries refilled3 0 = Some \<lparr> m_operation = 6, m_result = 60, m_lru_cit = 5 \<rparr> \<and>
   entries refilled3 2 = Some \<lparr> m_operation = 4, m_result = 40, m_lru_cit = 3 \<rparr> \<and>
   cache_lookup id_hash [] (pure_run times_ten) 7 refilled3 = Inr (Inr 70, wrong3) \<and>
   entries wrong3 0 = Some \<lparr> m_operation = 7, m_result = 70, m_lru_cit = 6 \<rparr> \<and>
   entries wrong3 2 = Some \<lparr> m_operation = 4, m_result = 40, m_lru_cit = 3 \<rparr>"
proof -
  have "cache_lookups id_hash [] times_ten [1, 2, 3] empty3 = Inr full3"
    by (simp add: lookup_eval empty3_def full3_def suc_numerals)
  moreover have "clear full3 = cleared3"
    by (simp add: clear_def clear_and_dispose_def deallocate_def full3_def cleared3_def
        replicate_4 fun_eq_iff)
  moreover have "cache_lookups id_hash [] times_ten [4, 5, 6] cleared3 = Inr refilled3"
    by (simp add: lookup_eval cleared3_def refilled3_def suc_numerals)
  moreover have "cache_lookup id_hash [] (pure_run times_ten) 7 refilled3 = Inr (Inr 70, wrong3)"
    by (simp add: lookup_eval refilled3_def wrong3_def fun_eq_iff)
  moreover have "lru_exact full3 \<and> \<not> lru_exact cleared3"
    by (simp add: lru_exact_def elements_def full3_def cleared3_def)
  moreover have "elements (m_set cleared3) = [] \<and>
      m_lru_list cleared3 = [(0, 0), (1, 1), (2, 2)] \<and> hd (m_lru_list refilled3) = (0, 0)"
    by (simp add: elements_def cleared3_def refilled3_def)
  moreover have "entries refilled3 0 = Some \<lparr> m_operation = 6, m_result = 60, m_lru_cit = 5 \<rparr> \<and>
      entries refilled3 2 = Some \<lparr> m_operation = 4, m_result = 40, m_lru_cit = 3 \<rparr> \<and>
      entries wrong3 0 = Some \<lparr> m_operation = 7, m_result = 70, m_lru_cit = 6 \<rparr> \<and>
      entries wrong3 2 = Some \<lparr> m_operation = 4, m_result = 40, m_lru_cit = 3 \<rparr>"
    by (simp add: refilled3_def wrong3_def)
  ultimately show ?thesis by simp
qed

section \<open>Assigning a handle to itself\<close>

text \<open>
  Claim C3. \<open>operator=(const ptr&)\<close> releases what \<open>*this\<close> holds before it counts the new
  reference. \<open>make\<close> returns the only handle to the value \<open>7\<close>, which the table stores at the
  address 100 with the count 1. Releasing that handle erases the value from the table and
  destructs it. So does assigning the handle to itself, although the handle stays live: the
  count falls to 0, the deletion handler erases the value, and the increment that follows
  reaches a destructed object.
\<close>

theorem self_assignment_erases_value:
  "make id_hash 16 8 100 7 (unicity 4) = Inr (Ptr (Some 100), one_handle) \<and>
   elements (unique_table.m_set (m_ut one_handle)) = [100] \<and>
   objects (m_ut one_handle) 100 = Some \<lparr> m_ref_count = 1, m_data = 7 \<rparr> \<and>
   release id_hash (Ptr (Some 100)) one_handle = Inr no_handle \<and>
   elements (unique_table.m_set (m_ut no_handle)) = [] \<and>
   objects (m_ut no_handle) 100 = None \<and>
   ptr_assign id_hash (Ptr (Some 100)) (Ptr (Some 100)) one_handle = Inl Dangling_pointer"
proof -
  have "make id_hash 16 8 100 7 (unicity 4) = Inr (Ptr (Some 100), one_handle)"
    by (simp add: unicity_eval unicity_def unique_table_def hash_table_def next_power_of_2_4
        replicate_4 and_7_3 one_handle_def Let_def)
  moreover have "release id_hash (Ptr (Some 100)) one_handle = Inr no_handle"
    by (simp add: unicity_eval one_handle_def no_handle_def and_7_3 Let_def fun_eq_iff)
  moreover have
    "ptr_assign id_hash (Ptr (Some 100)) (Ptr (Some 100)) one_handle = Inl Dangling_pointer"
    by (simp add: unicity_eval one_handle_def and_7_3 Let_def)
  moreover have "elements (unique_table.m_set (m_ut one_handle)) = [100] \<and>
      objects (m_ut one_handle) 100 = Some \<lparr> m_ref_count = 1, m_data = 7 \<rparr> \<and>
      elements (unique_table.m_set (m_ut no_handle)) = [] \<and>
      objects (m_ut no_handle) 100 = None"
    by (simp add: elements_def one_handle_def no_handle_def)
  ultimately show ?thesis by simp
qed

section \<open>Insertion in growing mode\<close>



section \<open>The one-slot allocation cache\<close>





section \<open>Eviction at capacity in a cache that was never cleared\<close>

text \<open>
  Take a cache as its constructor leaves it and any sequence of lookups of operations that
  do not themselves touch the cache, with no \<open>clear()\<close> in between. The lookups return, and
  the size never exceeds the capacity. If the cache they leave is full and an accepted
  operation with no entry evaluates to a result, its lookup evicts exactly the entry of the
  front node of the LRU list: that entry is erased from the table, destructed, its slot is
  the one slot of the pool, its node is gone and \<open>discarded\<close> has grown by one, before the
  new entry is constructed in that slot, appended to the LRU list and committed. The evicted
  entry is the least recently accessed one: the last access to its operation, among the
  lookups that were accepted and returned, is earlier than the last access to the operation
  of any other entry.
\<close>

lemma eviction_without_clear:
  assumes ctor: "cache sz = Inr c0"
    and trace: "cache_lookups h Filters f ops c0 = Inr c"
    and acc: "apply_filters Filters op = Inr True"
    and none: "\<not> (\<exists>p e. entries c p = Some e \<and> m_operation e = op)"
    and val: "f op = Inr res"
    and full: "m_size (m_set c) = m_max_size c"
  shows "(\<exists>n oldest lru e c2 c'.
            m_lru_list c = (n, oldest) # lru \<and> entries c oldest = Some e \<and>
            (\<forall>p e'. entries c p = Some e' \<and> p \<noteq> oldest \<longrightarrow>
               last_access (accesses Filters f ops) (m_operation e) <
               last_access (accesses Filters f ops) (m_operation e')) \<and>
            evict h (c \<lparr> m_stats := (m_stats c) \<lparr> misses := misses (m_stats c) + 1 \<rparr> \<rparr>) =
              Inr c2 \<and>
            set (elements (m_set c2)) = set (elements (m_set c)) - {oldest} \<and>
            m_size (m_set c2) + 1 = m_size (m_set c) \<and>
            entries c2 = (entries c) (oldest := None) \<and>
            m_pool c2 = [oldest] \<and>
            m_lru_list c2 = lru \<and>
            discarded (m_stats c2) = discarded (m_stats c) + 1 \<and>
            store op res (h op AND (m_nb_buckets (m_set c) - 1)) c2 = Inr c' \<and>
            cache_lookup h Filters (pure_run f) op c = Inr (Inr res, c') \<and>
            entries c' = (entries c)
              (oldest \<mapsto> \<lparr> m_operation = op, m_result = res, m_lru_cit = fresh_node lru \<rparr>) \<and>
            m_lru_list c' = lru @ [(fresh_node lru, oldest)] \<and>
            discarded (m_stats c') = discarded (m_stats c) + 1 \<and>
            m_size (m_set c') = m_max_size c' \<and> m_max_size c' = m_max_size c) \<and>
         (\<forall>ops'. \<exists>c''. cache_lookups h Filters f ops' c0 = Inr c'' \<and>
            m_size (m_set c'') \<le> m_max_size c'' \<and> m_max_size c'' = m_max_size c0)"
proof
  from lookups_from_ctor [OF ctor, where h = h and Filters = Filters and f = f and ops = ops] trace
  have inv: "cache_inv h c" and ex: "lru_exact c"
    and model: "lru_operations c = spec_lru_model (m_max_size c0) (accesses Filters f ops)"
    by auto
  from none have none0: "\<forall>p e. entries c p = Some e \<longrightarrow> m_operation e \<noteq> op" by blast
  show "\<exists>n oldest lru e c2 c'.
            m_lru_list c = (n, oldest) # lru \<and> entries c oldest = Some e \<and>
            (\<forall>p e'. entries c p = Some e' \<and> p \<noteq> oldest \<longrightarrow>
               last_access (accesses Filters f ops) (m_operation e) <
               last_access (accesses Filters f ops) (m_operation e')) \<and>
            evict h (c \<lparr> m_stats := (m_stats c) \<lparr> misses := misses (m_stats c) + 1 \<rparr> \<rparr>) =
              Inr c2 \<and>
            set (elements (m_set c2)) = set (elements (m_set c)) - {oldest} \<and>
            m_size (m_set c2) + 1 = m_size (m_set c) \<and>
            entries c2 = (entries c) (oldest := None) \<and>
            m_pool c2 = [oldest] \<and>
            m_lru_list c2 = lru \<and>
            discarded (m_stats c2) = discarded (m_stats c) + 1 \<and>
            store op res (h op AND (m_nb_buckets (m_set c) - 1)) c2 = Inr c' \<and>
            cache_lookup h Filters (pure_run f) op c = Inr (Inr res, c') \<and>
            entries c' = (entries c)
              (oldest \<mapsto> \<lparr> m_operation = op, m_result = res, m_lru_cit = fresh_node lru \<rparr>) \<and>
            m_lru_list c' = lru @ [(fresh_node lru, oldest)] \<and>
            discarded (m_stats c') = discarded (m_stats c) + 1 \<and>
            m_size (m_set c') = m_max_size c' \<and> m_max_size c' = m_max_size c"
  proof (rule lookup_miss_value [where f = f and res = res, OF inv acc none0 val])
  fix c1 c2 c' entry n e
  assume
    st1: "c1 = c \<lparr> m_stats := (m_stats c) \<lparr> misses := misses (m_stats c) + 1 \<rparr> \<rparr>"
    "(if m_size (m_set c) = m_max_size c then evict h c1 else Inr c1) = Inr c2"
    "store op res (h op AND (m_nb_buckets (m_set c) - 1)) c2 = Inr c'"
    "cache_lookup h Filters (pure_run f) op c = Inr (Inr res, c')"
    "cache_inv h c2" "cache_inv h c'"
    "m_pool c2 = entry # m_pool c'" "entries c2 entry = None"
    "m_lru_list c' = m_lru_list c2 @ [(fresh_node (m_lru_list c2), entry)]"
    "entries c' = (entries c2)
       (entry \<mapsto> \<lparr> m_operation = op, m_result = res, m_lru_cit = fresh_node (m_lru_list c2) \<rparr>)"
    "set (elements (m_set c')) = insert entry (set (elements (m_set c2)))"
    "m_size (m_set c') = m_size (m_set c2) + 1"
    "m_max_size c' = m_max_size c" "m_stats c' = m_stats c2"
    and st2: "m_size (m_set c) \<noteq> m_max_size c \<Longrightarrow> c2 = c1"
    "m_size (m_set c) = m_max_size c \<Longrightarrow> m_lru_list c = (n, entry) # m_lru_list c2"
    "m_size (m_set c) = m_max_size c \<Longrightarrow> entries c entry = Some e"
    "m_size (m_set c) = m_max_size c \<Longrightarrow> entries c2 = (entries c) (entry := None)"
    "m_size (m_set c) = m_max_size c \<Longrightarrow>
       set (elements (m_set c2)) = set (elements (m_set c)) - {entry}"
    "m_size (m_set c) = m_max_size c \<Longrightarrow> m_size (m_set c2) + 1 = m_size (m_set c)"
    "m_size (m_set c) = m_max_size c \<Longrightarrow> m_pool c = []"
    "m_size (m_set c) = m_max_size c \<Longrightarrow> m_pool c2 = [entry]"
    "m_size (m_set c) = m_max_size c \<Longrightarrow>
       m_stats c2 = (m_stats c1) \<lparr> discarded := discarded (m_stats c1) + 1 \<rparr>"
  note st = st1(1-5) st1(9,10,12,13,14) st2(2-6) st2(8,9)
  note l = st(11) [OF full] and e = st(12) [OF full] and mem2 = st(13) [OF full]
    and els2 = st(14) [OF full] and sz2 = st(15) [OF full] and pool2 = st(16) [OF full]
    and stats2 = st(17) [OF full]
  have ev: "evict h (c \<lparr> m_stats := (m_stats c) \<lparr> misses := misses (m_stats c) + 1 \<rparr> \<rparr>) =
              Inr c2"
    using st(2) full by (simp add: st(1))
  have front: "lru_operations c = m_operation e # lru_operations c2"
    by (rule evict_lru(2) [OF ex l e mem2 els2])
  have least: "\<forall>p e'. entries c p = Some e' \<and> p \<noteq> entry \<longrightarrow>
               last_access (accesses Filters f ops) (m_operation e) <
               last_access (accesses Filters f ops) (m_operation e')"
  proof (intro allI impI)
    fix p e' assume "entries c p = Some e' \<and> p \<noteq> entry"
    then have "entries c2 p = Some e'" by (simp add: mem2)
    then have "m_operation e' \<in> set (lru_operations c2)"
      unfolding lru_operations_set [OF st(5)] by blast
    with lru_model_front_least [of "m_max_size c0" "accesses Filters f ops" "m_operation e"
        "lru_operations c2" "m_operation e'"] front model
    show "last_access (accesses Filters f ops) (m_operation e) <
               last_access (accesses Filters f ops) (m_operation e')" by simp
  qed
  have d2: "discarded (m_stats c2) = discarded (m_stats c) + 1"
    by (simp add: stats2 st(1))
  have mem': "entries c' = (entries c)
      (entry \<mapsto> \<lparr> m_operation = op, m_result = res, m_lru_cit = fresh_node (m_lru_list c2) \<rparr>)"
    by (simp add: st(7) mem2)
  have d': "discarded (m_stats c') = discarded (m_stats c) + 1" by (simp add: st(10) d2)
  have sz': "m_size (m_set c') = m_max_size c'" using st(8) sz2 full st(9) by simp
  show "\<exists>n oldest lru e c2 c'.
            m_lru_list c = (n, oldest) # lru \<and> entries c oldest = Some e \<and>
            (\<forall>p e'. entries c p = Some e' \<and> p \<noteq> oldest \<longrightarrow>
               last_access (accesses Filters f ops) (m_operation e) <
               last_access (accesses Filters f ops) (m_operation e')) \<and>
            evict h (c \<lparr> m_stats := (m_stats c) \<lparr> misses := misses (m_stats c) + 1 \<rparr> \<rparr>) =
              Inr c2 \<and>
            set (elements (m_set c2)) = set (elements (m_set c)) - {oldest} \<and>
            m_size (m_set c2) + 1 = m_size (m_set c) \<and>
            entries c2 = (entries c) (oldest := None) \<and>
            m_pool c2 = [oldest] \<and>
            m_lru_list c2 = lru \<and>
            discarded (m_stats c2) = discarded (m_stats c) + 1 \<and>
            store op res (h op AND (m_nb_buckets (m_set c) - 1)) c2 = Inr c' \<and>
            cache_lookup h Filters (pure_run f) op c = Inr (Inr res, c') \<and>
            entries c' = (entries c)
              (oldest \<mapsto> \<lparr> m_operation = op, m_result = res, m_lru_cit = fresh_node lru \<rparr>) \<and>
            m_lru_list c' = lru @ [(fresh_node lru, oldest)] \<and>
            discarded (m_stats c') = discarded (m_stats c) + 1 \<and>
            m_size (m_set c') = m_max_size c' \<and> m_max_size c' = m_max_size c"
    apply (rule exI [of _ n], rule exI [of _ entry], rule exI [of _ "m_lru_list c2"],
        rule exI [of _ e], rule exI [of _ c2], rule exI [of _ c'])
    apply (intro conjI)
    apply (rule l, rule e, rule least, rule ev, rule els2, rule sz2, rule mem2, rule pool2,
        rule refl, rule d2, rule st(3), rule st(4), rule mem', rule st(6), rule d', rule sz',
        rule st(9))
    done
  qed
next
  show "\<forall>ops'. \<exists>c''. cache_lookups h Filters f ops' c0 = Inr c'' \<and>
            m_size (m_set c'') \<le> m_max_size c'' \<and> m_max_size c'' = m_max_size c0"
  proof
    fix ops'
    from lookups_from_ctor [OF ctor, where h = h and Filters = Filters and f = f and ops = ops']
    obtain c'' where "cache_lookups h Filters f ops' c0 = Inr c''" "cache_inv h c''"
      "m_max_size c'' = m_max_size c0" by blast
    moreover from cache_inv_balance [OF this(2)] have "m_size (m_set c'') \<le> m_max_size c''"
      by simp
    ultimately show "\<exists>c''. cache_lookups h Filters f ops' c0 = Inr c'' \<and>
            m_size (m_set c'') \<le> m_max_size c'' \<and> m_max_size c'' = m_max_size c0" by blast
  qed
qed

lemma eviction_without_clear_example:
  "cache 4 = Inr empty3 \<and>
   cache_lookups id_hash [] times_ten [1, 2, 3] empty3 = Inr full3 \<and>
   apply_filters [] (4 :: nat) = (Inr True :: unit + bool) \<and>
   \<not> (\<exists>p e. entries full3 p = Some e \<and> m_operation e = 4) \<and>
   times_ten 4 = Inr 40 \<and>
   m_size (m_set full3) = m_max_size full3 \<and>
   m_lru_list full3 = [(0, 0), (1, 1), (2, 2)] \<and>
   entries full3 0 = Some \<lparr> m_operation = 1, m_result = 10, m_lru_cit = 0 \<rparr> \<and>
   accesses [] times_ten [1, 2, 3] = [1, 2, 3] \<and>
   last_access [1, 2, 3] (1 :: nat) = 1 \<and>
   cache_lookup id_hash [] (pure_run times_ten) 4 full3 = Inr (Inr 40, evicted3) \<and>
   entries evicted3 = (entries full3)
     (0 \<mapsto> \<lparr> m_operation = 4, m_result = 40, m_lru_cit = 3 \<rparr>) \<and>
   m_lru_list evicted3 = [(1, 1), (2, 2), (3, 0)] \<and>
   discarded (m_stats evicted3) = discarded (m_stats full3) + 1 \<and>
   m_size (m_set evicted3) = m_max_size evicted3"
proof -
  have trace: "cache_lookups id_hash [] times_ten [1, 2, 3] empty3 = Inr full3"
    by (simp add: lookup_eval empty3_def full3_def suc_numerals)
  have acc: "apply_filters [] (4 :: nat) = (Inr True :: unit + bool)" by simp
  have none: "\<not> (\<exists>p e. entries full3 p = Some e \<and> m_operation e = 4)"
    by (auto simp: full3_def split: if_splits)
  have val: "times_ten 4 = Inr 40" by (simp add: times_ten_def)
  have full: "m_size (m_set full3) = m_max_size full3" by (simp add: full3_def)
  have lru: "m_lru_list full3 = [(0, 0), (1, 1), (2, 2)]" by (simp add: full3_def)
  have front: "entries full3 0 = Some \<lparr> m_operation = 1, m_result = 10, m_lru_cit = 0 \<rparr>"
    by (simp add: full3_def)
  have accs: "accesses [] times_ten [1, 2, 3] = [1, 2, 3]"
    by (simp add: accesses_def times_ten_def)
  have la: "last_access [1, 2, 3] (1 :: nat) = 1" by simp
  have ev: "cache_lookup id_hash [] (pure_run times_ten) 4 full3 = Inr (Inr 40, evicted3)"
    by (simp add: lookup_eval full3_def evicted3_def suc_numerals fun_eq_iff)
  from eviction_without_clear [OF cache_4 trace acc none val full]
  obtain n oldest lru' c' where
    l: "m_lru_list full3 = (n, oldest) # lru'"
    and lk: "cache_lookup id_hash [] (pure_run times_ten) 4 full3 = Inr (Inr 40, c')"
    and mem: "entries c' = (entries full3)
      (oldest \<mapsto> \<lparr> m_operation = 4, m_result = 40, m_lru_cit = fresh_node lru' \<rparr>)"
    and l': "m_lru_list c' = lru' @ [(fresh_node lru', oldest)]"
    and d: "discarded (m_stats c') = discarded (m_stats full3) + 1"
    and sz: "m_size (m_set c') = m_max_size c'"
    by (elim exE conjE)
  from lk ev have c': "c' = evicted3" by simp
  from l lru have old: "oldest = 0" "lru' = [(1, 1), (2, 2)]" by simp_all
  have fresh: "fresh_node [(1, 1), (2 :: nat, 2 :: nat)] = 3"
    by (simp add: fresh_node_def)
  show ?thesis
    using cache_4 trace acc none val full lru front accs la ev
      mem [unfolded c' old fresh] l' [unfolded c' old fresh] d [unfolded c'] sz [unfolded c']
    by simp
qed

section \<open>Eviction at capacity after \<open>clear()\<close>\<close>

text \<open>
  Claim C5. The claim does not hold in a cache that was cleared. The cache built with the
  size 4 has room for three entries. After the lookups of \<open>1\<close>, \<open>2\<close>, \<open>3\<close>, a \<open>clear()\<close> and
  the lookups of \<open>4\<close>, \<open>5\<close>, \<open>6\<close> it holds exactly three entries, for \<open>4\<close>, \<open>5\<close> and \<open>6\<close>,
  last accessed in this order. No filter rejects \<open>7\<close>, no entry holds \<open>7\<close> and evaluating
  \<open>7\<close> returns \<open>70\<close>. The front node of the LRU list is a node from before the \<open>clear()\<close>;
  it points to the slot 0, where the entry of \<open>6\<close> now lives. The lookup of \<open>7\<close> returns
  \<open>70\<close>, counts one discarded entry and evicts the entry of \<open>6\<close>, the most recently accessed
  one: the entries of \<open>4\<close> and \<open>5\<close> stay and no entry holds \<open>6\<close> any more.
\<close>

theorem eviction_after_clear_removes_newest:
  "cache 4 = Inr empty3 \<and>
   cache_lookups id_hash [] times_ten [1, 2, 3] empty3 = Inr full3 \<and>
   cache_lookups id_hash [] times_ten [4, 5, 6] (clear full3) = Inr refilled3 \<and>
   m_size (m_set refilled3) = 3 \<and> m_max_size refilled3 = 3 \<and>
   apply_filters [] (7 :: nat) = (Inr True :: unit + bool) \<and>
   \<not> (\<exists>p e. entries refilled3 p = Some e \<and> m_operation e = 7) \<and>
   times_ten 7 = Inr 70 \<and>
   dom (entries refilled3) = {0, 1, 2} \<and>
   entries refilled3 2 = Some \<lparr> m_operation = 4, m_result = 40, m_lru_cit = 3 \<rparr> \<and>
   entries refilled3 1 = Some \<lparr> m_operation = 5, m_result = 50, m_lru_cit = 4 \<rparr> \<and>
   entries refilled3 0 = Some \<lparr> m_operation = 6, m_result = 60, m_lru_cit = 5 \<rparr> \<and>
   accesses [] times_ten [1, 2, 3, 4, 5, 6] = [1, 2, 3, 4, 5, 6] \<and>
   last_access [1, 2, 3, 4, 5, 6] (4 :: nat) = 4 \<and>
   last_access [1, 2, 3, 4, 5, 6] (5 :: nat) = 5 \<and>
   last_access [1, 2, 3, 4, 5, 6] (6 :: nat) = 6 \<and>
   hd (m_lru_list refilled3) = (0, 0) \<and>
   cache_lookup id_hash [] (pure_run times_ten) 7 refilled3 = Inr (Inr 70, wrong3) \<and>
   discarded (m_stats wrong3) = discarded (m_stats refilled3) + 1 \<and>
   dom (entries wrong3) = {0, 1, 2} \<and>
   entries wrong3 2 = Some \<lparr> m_operation = 4, m_result = 40, m_lru_cit = 3 \<rparr> \<and>
   entries wrong3 1 = Some \<lparr> m_operation = 5, m_result = 50, m_lru_cit = 4 \<rparr> \<and>
   entries wrong3 0 = Some \<lparr> m_operation = 7, m_result = 70, m_lru_cit = 6 \<rparr> \<and>
   \<not> (\<exists>p e. entries wrong3 p = Some e \<and> m_operation e = 6)"
proof -
  have "cache_lookups id_hash [] times_ten [1, 2, 3] empty3 = Inr full3"
    by (simp add: lookup_eval empty3_def full3_def suc_numerals)
  moreover have "clear full3 = cleared3"
    by (simp add: clear_def clear_and_dispose_def deallocate_def full3_def cleared3_def
        replicate_4 fun_eq_iff)
  moreover have "cache_lookups id_hash [] times_ten [4, 5, 6] cleared3 = Inr refilled3"
    by (simp add: lookup_eval cleared3_def refilled3_def suc_numerals)
  moreover have "cache_lookup id_hash [] (pure_run times_ten) 7 refilled3 = Inr (Inr 70, wrong3)"
    by (simp add: lookup_eval refilled3_def wrong3_def fun_eq_iff)
  moreover have "m_size (m_set refilled3) = 3 \<and> m_max_size refilled3 = 3 \<and>
      hd (m_lru_list refilled3) = (0, 0) \<and>
      discarded (m_stats wrong3) = discarded (m_stats refilled3) + 1"
    by (simp add: refilled3_def wrong3_def)
  moreover have "\<not> (\<exists>p e. entries refilled3 p = Some e \<and> m_operation e = 7)"
    by (auto simp: refilled3_def split: if_splits)
  moreover have "\<not> (\<exists>p e. entries wrong3 p = Some e \<and> m_operation e = 6)"
    by (auto simp: wrong3_def split: if_splits)
  moreover have "dom (entries refilled3) = {0, 1, 2} \<and> dom (entries wrong3) = {0, 1, 2}"
    by (auto simp: refilled3_def wrong3_def)
  moreover have "entries refilled3 2 = Some \<lparr> m_operation = 4, m_result = 40, m_lru_cit = 3 \<rparr> \<and>
      entries refilled3 1 = Some \<lparr> m_operation = 5, m_result = 50, m_lru_cit = 4 \<rparr> \<and>
      entries refilled3 0 = Some \<lparr> m_operation = 6, m_result = 60, m_lru_cit = 5 \<rparr> \<and>
      entries wrong3 2 = Some \<lparr> m_operation = 4, m_result = 40, m_lru_cit = 3 \<rparr> \<and>
      entries wrong3 1 = Some \<lparr> m_operation = 5, m_result = 50, m_lru_cit = 4 \<rparr> \<and>
      entries wrong3 0 = Some \<lparr> m_operation = 7, m_result = 70, m_lru_cit = 6 \<rparr>"
    by (simp add: refilled3_def wrong3_def)
  moreover have "accesses [] times_ten [1, 2, 3, 4, 5, 6] = [1, 2, 3, 4, 5, 6]"
    by (simp add: accesses_def times_ten_def)
  moreover have "times_ten 7 = Inr 70" by (simp add: times_ten_def)
  ultimately show ?thesis using cache_4 by simp
qed

section \<open>Uniqueness\<close>

text \<open>
  Claim C2. Take the state that any sequence of \<open>make_sized\<close>, copies, assignments and
  destructions of handles leaves when started on a new \<open>unicity\<close> and run without a fault.
  Two handles that point to constructed values hold equal values exactly when they hold the
  same pointer. The table chains every constructed value, each once. A further \<open>make_sized\<close>
  that returns gives a handle to a chained value with the requested payload; it is the value
  already present when one with that payload was present, the table then chains what it
  chained before, and no constructed value is left outside the table, so the duplicate has
  been destructed. \<open>make_sized\<close> does return when the size covers \<open>sizeof(T)\<close>, the sum
  \<open>sizeof(Unique) + size\<close> does not wrap, the allocator offers a block that is not in use and
  no reference counter is at its maximum.
\<close>

theorem uniqueness:
  assumes run: "run_actions h sizeof_Unique sizeof_T acts (unicity n) = Inr s"
    and a: "m_x a = Some x" "objects (m_ut s) x = Some ux"
    and b: "m_x b = Some y" "objects (m_ut s) y = Some uy"
  shows "(eq_unique ux uy \<longleftrightarrow> eq_ptr a b) \<and>
         distinct (elements (unique_table.m_set (m_ut s))) \<and>
         (\<forall>w. objects (m_ut s) w \<noteq> None \<longleftrightarrow> w \<in> set (elements (unique_table.m_set (m_ut s)))) \<and>
         (\<forall>fresh sz args p s'.
            make_sized h sizeof_Unique sizeof_T fresh sz args s = Inr (p, s') \<longrightarrow>
            (\<exists>z uz. m_x p = Some z \<and> objects (m_ut s') z = Some uz \<and> m_data uz = args \<and>
               (m_data ux = args \<longrightarrow> z = x) \<and>
               set (elements (unique_table.m_set (m_ut s'))) =
                 insert z (set (elements (unique_table.m_set (m_ut s)))) \<and>
               (\<forall>w. objects (m_ut s') w \<noteq> None \<longleftrightarrow>
                  w \<in> set (elements (unique_table.m_set (m_ut s')))))) \<and>
         (\<forall>fresh sz args.
            sizeof_T \<le> sz \<and> sizeof_Unique + sz < 2 ^ 64 \<and> blocks (m_ut s) fresh = None \<and>
            (\<forall>z uz. objects (m_ut s) z = Some uz \<longrightarrow> m_ref_count uz < 2 ^ 32 - 1) \<longrightarrow>
            (\<exists>p s'. make_sized h sizeof_Unique sizeof_T fresh sz args s = Inr (p, s')))"
proof (intro conjI allI impI)
  have inv: "ut_inv h (m_ut s)" by (rule run_actions_ok [OF unicity_inv run])
  have xin: "x \<in> set (elements (unique_table.m_set (m_ut s)))"
    using ut_inv_dom [OF inv, of x] a(2) by simp
  have yin: "y \<in> set (elements (unique_table.m_set (m_ut s)))"
    using ut_inv_dom [OF inv, of y] b(2) by simp
  show "eq_unique ux uy \<longleftrightarrow> eq_ptr a b"
    using ut_inv_unique [OF inv xin a(2) yin b(2)] a(1) b(1)
    by (simp add: eq_unique_def eq_ptr_def)
  show "distinct (elements (unique_table.m_set (m_ut s)))"
    using buckets_inv_distinct [OF ut_inv_table [OF inv, unfolded table_inv_def]]
    by (simp add: elements_def)
  show "objects (m_ut s) w \<noteq> None \<longleftrightarrow> w \<in> set (elements (unique_table.m_set (m_ut s)))" for w
    by (rule ut_inv_dom [OF inv])
  show "\<exists>z uz. m_x p = Some z \<and> objects (m_ut s') z = Some uz \<and> m_data uz = args \<and>
               (m_data ux = args \<longrightarrow> z = x) \<and>
               set (elements (unique_table.m_set (m_ut s'))) =
                 insert z (set (elements (unique_table.m_set (m_ut s)))) \<and>
               (\<forall>w. objects (m_ut s') w \<noteq> None \<longleftrightarrow>
                  w \<in> set (elements (unique_table.m_set (m_ut s'))))"
    if mk: "make_sized h sizeof_Unique sizeof_T fresh sz args s = Inr (p, s')"
    for fresh sz args p s'
  proof -
    from make_sized_ok(2) [OF inv mk] obtain z uz where
      z: "m_x p = Some z" "objects (m_ut s') z = Some uz" "m_data uz = args"
      "\<forall>y uy. objects (m_ut s) y = Some uy \<longrightarrow> m_data uy = args \<longrightarrow> z = y"
      "set (elements (unique_table.m_set (m_ut s'))) =
         insert z (set (elements (unique_table.m_set (m_ut s))))"
      by blast
    from z(4) a(2) have "m_data ux = args \<longrightarrow> z = x" by blast
    moreover have "\<forall>w. objects (m_ut s') w \<noteq> None \<longleftrightarrow>
        w \<in> set (elements (unique_table.m_set (m_ut s')))"
      using ut_inv_dom [OF make_sized_ok(1) [OF inv mk]] by blast
    ultimately show ?thesis using z(1,2,3,5) by blast
  qed
  show "\<exists>p s'. make_sized h sizeof_Unique sizeof_T fresh sz args s = Inr (p, s')"
    if "sizeof_T \<le> sz \<and> sizeof_Unique + sz < 2 ^ 64 \<and> blocks (m_ut s) fresh = None \<and>
        (\<forall>z uz. objects (m_ut s) z = Some uz \<longrightarrow> m_ref_count uz < 2 ^ 32 - 1)"
    for fresh sz args
  proof -
    note 1 = that [THEN conjunct1] and 2 = that [THEN conjunct2, THEN conjunct1]
      and 3 = that [THEN conjunct2, THEN conjunct2, THEN conjunct1]
      and 4 = that [THEN conjunct2, THEN conjunct2, THEN conjunct2]
    have fit: "blocks_fit sizeof_Unique (m_ut s)" by (rule run_actions_fit [OF unicity_fit run])
    show ?thesis by (rule make_sized_returns [OF inv fit 1 2 3 4])
  qed
qed

theorem uniqueness_witness:
  "run_actions id_hash 16 8 [Make_sized 100 8 7, Make_sized 200 8 7, Make_sized 300 8 9, Make_sized 300 8 5,
      Destroy (Ptr (Some 300))]
     (unicity 4) = Inr two_values \<and>
   m_x (Ptr (Some 100)) = Some 100 \<and>
   objects (m_ut two_values) 100 = Some \<lparr> m_ref_count = 2, m_data = 7 \<rparr> \<and>
   m_x (Ptr (Some 200)) = Some 200 \<and>
   objects (m_ut two_values) 200 = Some \<lparr> m_ref_count = 1, m_data = 9 \<rparr> \<and>
   \<not> eq_unique \<lparr> m_ref_count = 2, m_data = 7 :: nat \<rparr> \<lparr> m_ref_count = 1, m_data = 9 \<rparr> \<and>
   \<not> eq_ptr (Ptr (Some 100)) (Ptr (Some 200)) \<and>
   elements (unique_table.m_set (m_ut two_values)) = [200, 100] \<and>
   (\<exists>s'. make_sized id_hash 16 8 300 8 7 two_values = Inr (Ptr (Some 100), s') \<and>
         objects (m_ut s') 300 = None \<and>
         set (elements (unique_table.m_set (m_ut s'))) = {100, 200})"
proof -
  have run: "run_actions id_hash 16 8 [Make_sized 100 8 7, Make_sized 200 8 7, Make_sized 300 8 9, Make_sized 300 8 5,
      Destroy (Ptr (Some 300))]
     (unicity 4) = Inr two_values"
    by (simp add: unicity_eval unicity_def unique_table_def hash_table_def next_power_of_2_4
        replicate_4 replicate_8 and_7_3 and_9_3 and_masks ptr_destroy_def two_values_def Let_def
        fun_upd_twist suc_numerals fun_eq_iff)
  have a: "m_x (Ptr (Some 100)) = Some 100"
    "objects (m_ut two_values) 100 = Some \<lparr> m_ref_count = 2, m_data = 7 \<rparr>"
    by (simp_all add: two_values_def)
  have b: "m_x (Ptr (Some 200)) = Some 200"
    "objects (m_ut two_values) 200 = Some \<lparr> m_ref_count = 1, m_data = 9 \<rparr>"
    by (simp_all add: two_values_def)
  note u = uniqueness [OF run a b]
  have ne: "\<not> eq_unique \<lparr> m_ref_count = 2, m_data = 7 :: nat \<rparr> \<lparr> m_ref_count = 1, m_data = 9 \<rparr>"
    by (simp add: eq_unique_def)
  with u have np: "\<not> eq_ptr (Ptr (Some 100)) (Ptr (Some 200))" by blast
  have els: "elements (unique_table.m_set (m_ut two_values)) = [200, 100]"
    by (simp add: two_values_def elements_def)
  have pre: "(8 :: nat) \<le> 8 \<and> (16 :: nat) + 8 < 2 ^ 64 \<and> blocks (m_ut two_values) 300 = None \<and>
      (\<forall>z uz. objects (m_ut two_values) z = Some uz \<longrightarrow> m_ref_count uz < 2 ^ 32 - 1)"
    by (auto simp: two_values_def split: if_splits)
  from u pre obtain p s' where mk: "make_sized id_hash 16 8 300 8 7 two_values = Inr (p, s')"
    by blast
  from u mk obtain z where z: "m_x p = Some z"
    "m_data \<lparr> m_ref_count = 2, m_data = 7 :: nat \<rparr> = 7 \<longrightarrow> z = 100"
    "set (elements (unique_table.m_set (m_ut s'))) =
       insert z (set (elements (unique_table.m_set (m_ut two_values))))"
    "\<forall>w. objects (m_ut s') w \<noteq> None \<longleftrightarrow> w \<in> set (elements (unique_table.m_set (m_ut s')))"
    by blast
  from z(2) have z100: "z = 100" by simp
  with z(1) have p: "p = Ptr (Some 100)" by (cases p) simp
  have els': "set (elements (unique_table.m_set (m_ut s'))) = {100, 200}"
    using z(3) by (auto simp: z100 els)
  have "(300 :: nat) \<notin> {100, 200}" by simp
  with z(4) els' have "objects (m_ut s') 300 = None" by metis
  with mk p els' have last: "\<exists>s'. make_sized id_hash 16 8 300 8 7 two_values = Inr (Ptr (Some 100), s') \<and>
         objects (m_ut s') 300 = None \<and>
         set (elements (unique_table.m_set (m_ut s'))) = {100, 200}" by blast
  show ?thesis using run a b ne np els last by simp
qed

end
